theory Spec2Isabelle
  imports Main "HOL-Library.Word" "HOL-Library.Sublist"
begin

section \<open>JavaScript strings\<close>

text \<open>
  A JavaScript string is a sequence of UTF-16 code units. String literals of the source
  are ASCII and are written \<open>js ''...''\<close>; a literal that the source writes inside
  double quotes within the string, such as \<open>"#000"\<close>, is written \<open>quoted ''#000''\<close>.
\<close>

type_synonym code_unit = "16 word"
type_synonym jsstring = "code_unit list"

definition js :: "string \<Rightarrow> jsstring" where
  "js s = map of_char s"

definition DQ :: code_unit where
  "DQ = 0x0022"

definition quoted :: "string \<Rightarrow> jsstring" where
  "quoted s = DQ # js s @ [DQ]"

definition LF :: code_unit where
  "LF = 0x000A"

definition BACKSLASH :: code_unit where
  "BACKSLASH = 0x005C"

definition PERCENT :: code_unit where
  "PERCENT = 0x0025"

text \<open>
  \<open>WhiteSpace\<close> and \<open>LineTerminator\<close> of ECMAScript: the code units that
  \<open>String.prototype.trim\<close>, \<open>trimStart\<close> and the regular expression class
  \<open>\s\<close> treat as white space.
\<close>

definition isWhiteSpace :: "code_unit \<Rightarrow> bool" where
  "isWhiteSpace c \<longleftrightarrow>
     c = 0x0009 \<or> c = 0x000A \<or> c = 0x000B \<or> c = 0x000C \<or> c = 0x000D \<or> c = 0x0020 \<or>
     c = 0x00A0 \<or> c = 0x1680 \<or> (0x2000 \<le> c \<and> c \<le> 0x200A) \<or> c = 0x2028 \<or>
     c = 0x2029 \<or> c = 0x202F \<or> c = 0x205F \<or> c = 0x3000 \<or> c = 0xFEFF"

definition trimStart :: "jsstring \<Rightarrow> jsstring" where
  "trimStart s = dropWhile isWhiteSpace s"

definition trimEnd :: "jsstring \<Rightarrow> jsstring" where
  "trimEnd s = rev (dropWhile isWhiteSpace (rev s))"

definition trim :: "jsstring \<Rightarrow> jsstring" where
  "trim s = trimEnd (trimStart s)"

definition startsWith :: "jsstring \<Rightarrow> jsstring \<Rightarrow> bool" where
  "startsWith s p = prefix p s"

text \<open>\<open>s.includes(p)\<close>: \<open>p\<close> occurs in \<open>s\<close> as a contiguous substring.\<close>

fun includes_str :: "jsstring \<Rightarrow> jsstring \<Rightarrow> bool" where
  "includes_str [] p = (p = [])"
| "includes_str (c # cs) p = (prefix p (c # cs) \<or> includes_str cs p)"

text \<open>\<open>s.split("\n")\<close>: the pieces between line feeds; never the empty array.\<close>

fun split_lf :: "jsstring \<Rightarrow> jsstring list" where
  "split_lf [] = [[]]"
| "split_lf (c # cs) =
     (if c = LF then [] # split_lf cs
      else (case split_lf cs of
              [] \<Rightarrow> [[c]]
            | l # ls \<Rightarrow> (c # l) # ls))"

text \<open>\<open>xs.join(sep)\<close>.\<close>

fun join :: "jsstring \<Rightarrow> jsstring list \<Rightarrow> jsstring" where
  "join sep [] = []"
| "join sep [x] = x"
| "join sep (x # y # ys) = x @ sep @ join sep (y # ys)"

text \<open>
  \<open>xs.findIndex(P)\<close>: the index of the first element that satisfies \<open>P\<close>, or \<open>-1\<close>.
\<close>

fun findIndex :: "('a \<Rightarrow> bool) \<Rightarrow> 'a list \<Rightarrow> int" where
  "findIndex P [] = - 1"
| "findIndex P (x # xs) =
     (if P x then 0
      else (let i = findIndex P xs in if i = - 1 then - 1 else i + 1))"

text \<open>
  \<open>xs.slice(start, stop)\<close>, with the negative indices of JavaScript counted from the
  end; \<open>xs.slice(start)\<close> is \<open>slice xs start (length xs)\<close>.
\<close>

definition slice :: "'a list \<Rightarrow> int \<Rightarrow> int \<Rightarrow> 'a list" where
  "slice xs start stop =
     (let len = int (length xs);
          k = (if start < 0 then max (len + start) 0 else min start len);
          final = (if stop < 0 then max (len + stop) 0 else min stop len)
      in take (nat (final - k)) (drop (nat k) xs))"

text \<open>
  Global replacement, the common core of \<open>s.replaceAll(pattern, replacement)\<close> for a
  string pattern and for a regular expression \<open>/(p1|p2)/g\<close> whose alternatives are
  literals: scan from the left; where an alternative matches (the first one in the order
  written), emit the replacement and continue after the match; otherwise copy one code
  unit. An empty match emits the replacement and copies the next code unit, so that an
  empty pattern puts the replacement before every code unit and at the end.
  The replacement strings of the source and the identifiers that \<open>uuidv4\<close> returns
  hold no \<open>$\<close>, so no replacement pattern is expanded.
\<close>

function replaceAlts :: "jsstring list \<Rightarrow> jsstring \<Rightarrow> jsstring \<Rightarrow> jsstring" where
  "replaceAlts pats new [] = (if [] \<in> set pats then new else [])"
| "replaceAlts pats new (c # cs) =
     (case find (\<lambda>p. prefix p (c # cs)) pats of
        None \<Rightarrow> c # replaceAlts pats new cs
      | Some p \<Rightarrow>
          if p = [] then new @ c # replaceAlts pats new cs
          else new @ replaceAlts pats new (drop (length p - 1) cs))"
  by pat_completeness auto
termination
  by (relation "measure (\<lambda>(pats, new, s). length s)") simp_all

definition replaceAll :: "jsstring \<Rightarrow> jsstring \<Rightarrow> jsstring \<Rightarrow> jsstring" where
  "replaceAll s old new = replaceAlts [old] new s"

text \<open>
  \<open>line.replace(/^%\s*/, "")\<close>: the pattern is anchored at the start of the string, so
  a string that does not begin with \<open>%\<close> is returned as it is.
\<close>

definition replace_leading_percent :: "jsstring \<Rightarrow> jsstring" where
  "replace_leading_percent line =
     (case line of
        [] \<Rightarrow> []
      | c # cs \<Rightarrow> if c = PERCENT then dropWhile isWhiteSpace cs else line)"

text \<open>
  What a global replacement may do to a text: copy a code unit, or put \<open>new\<close> in the
  place of one of the tokens \<open>toks\<close>.
\<close>

inductive rewritten :: "jsstring set \<Rightarrow> jsstring \<Rightarrow> jsstring \<Rightarrow> jsstring \<Rightarrow> bool"
  for toks :: "jsstring set" and new :: jsstring where
  rewritten_Nil: "rewritten toks new [] []"
| rewritten_copy: "rewritten toks new s s' \<Longrightarrow> rewritten toks new (c # s) (c # s')"
| rewritten_token:
    "t \<in> toks \<Longrightarrow> rewritten toks new s s' \<Longrightarrow> rewritten toks new (t @ s) (new @ s')"

section \<open>The tikz code block\<close>

text \<open>\<open>tidyTikzSource\<close> of \<open>main.ts\<close>.\<close>

definition tidyTikzSource :: "jsstring \<Rightarrow> jsstring" where
  "tidyTikzSource tikzSource =
     (let remove = js ''&nbsp;'';
          tikzSource1 = replaceAll tikzSource remove [];
          lines0 = split_lf tikzSource1;
          lines1 = map trim lines0;
          lines2 = filter (\<lambda>line. line \<noteq> []) lines1
      in join [LF] lines2)"

text \<open>
  The processor that \<open>registerTikzCodeBlock\<close> registers, up to the values it hands to
  the elements it creates: \<open>cssLines\<close> (the style declarations), \<open>cssString\<close> (the
  \<open>style\<close> attribute of the wrapper, set when not empty) and \<open>scriptText\<close> (the text
  of the \<open>text/tikz\<close> script, the tidied \<open>cleanedSource\<close>).
\<close>

record tikz_block =
  cssLines :: "jsstring list"
  cssString :: jsstring
  cleanedSource :: jsstring
  scriptText :: jsstring

definition css_of_lines :: "jsstring list \<Rightarrow> jsstring list" where
  "css_of_lines ls =
     filter (\<lambda>cssText. 0 < length cssText) (map (\<lambda>line. trim (replace_leading_percent line)) ls)"

definition registerTikzCodeBlock :: "jsstring \<Rightarrow> tikz_block" where
  "registerTikzCodeBlock source =
     (let lines = split_lf source;
          codeStart = findIndex (\<lambda>line. \<not> startsWith (trimStart line) [PERCENT]) lines;
          codeLines = (if codeStart = - 1 then [] else slice lines codeStart (int (length lines)));
          css = css_of_lines
                  (slice lines 0 (if codeStart = - 1 then int (length lines) else codeStart));
          cleaned = join [LF] codeLines
      in \<lparr> cssLines = css,
           cssString = join (js ''; '') css,
           cleanedSource = cleaned,
           scriptText = tidyTikzSource cleaned \<rparr>)"

section \<open>Recolouring\<close>

text \<open>
  \<open>colorSVGinDarkMode\<close> of \<open>main.ts\<close>: two global replacements, one applied to
  the result of the other.
\<close>

definition recolor_black :: "jsstring \<Rightarrow> jsstring" where
  "recolor_black svg =
     replaceAlts [quoted ''#000'', quoted ''black''] (quoted ''currentColor'') svg"

definition recolor_white :: "jsstring \<Rightarrow> jsstring" where
  "recolor_white svg =
     replaceAlts [quoted ''#fff'', quoted ''white''] (quoted ''var(--background-primary)'') svg"

definition colorSVGinDarkMode :: "jsstring \<Rightarrow> jsstring" where
  "colorSVGinDarkMode svg = recolor_white (recolor_black svg)"

definition color_tokens :: "jsstring list" where
  "color_tokens = [quoted ''#000'', quoted ''black'', quoted ''#fff'', quoted ''white'']"

text \<open>
  A text ends inside a token when it ends with one of the four tokens without the closing
  quote: a quote that follows completes the token.
\<close>

definition ends_inside_token :: "jsstring \<Rightarrow> bool" where
  "ends_inside_token x \<longleftrightarrow> (\<exists>t\<in>set color_tokens. suffix (butlast t) x)"

text \<open>
  A text begins inside a token when it begins with one of the four tokens without the
  opening quote: a quote that precedes completes the token.
\<close>

definition begins_inside_token :: "jsstring \<Rightarrow> bool" where
  "begins_inside_token y \<longleftrightarrow> (\<exists>t\<in>set color_tokens. prefix (tl t) y)"

section \<open>The document object model\<close>

text \<open>
  The part of the DOM that \<open>main.ts\<close> touches. A node is an element (tag name,
  attributes in order, child nodes) or a text node.
\<close>

datatype node =
    Element (tagName: jsstring) (attributes: "(jsstring \<times> jsstring) list") (childNodes: "node list")
  | Text (data: jsstring)
where
  "childNodes (Text t) = []"

definition getAttribute :: "node \<Rightarrow> jsstring \<Rightarrow> jsstring option" where
  "getAttribute n name = (case n of Element tg as cs \<Rightarrow> map_of as name | Text t \<Rightarrow> None)"

text \<open>\<open>element.id\<close> reflects the \<open>id\<close> attribute, and is empty without it.\<close>

definition element_id :: "node \<Rightarrow> jsstring" where
  "element_id n = (case getAttribute n (js ''id'') of Some v \<Rightarrow> v | None \<Rightarrow> [])"

text \<open>The nodes of a subtree in tree order, the root first.\<close>

fun tree_order :: "node \<Rightarrow> node list" where
  "tree_order (Text t) = [Text t]"
| "tree_order (Element tg as cs) = Element tg as cs # concat (map tree_order cs)"

text \<open>
  \<open>svgEl.querySelectorAll('[id]')\<close>: the descendants of \<open>svgEl\<close> that are elements
  with an \<open>id\<close> attribute (also an empty one), in tree order. The list is static: it
  keeps the elements as they were when the query ran.
\<close>

definition querySelectorAll_id :: "node \<Rightarrow> node list" where
  "querySelectorAll_id root =
     filter (\<lambda>n. getAttribute n (js ''id'') \<noteq> None) (concat (map tree_order (childNodes root)))"

text \<open>
  The serialization that the \<open>innerHTML\<close> and \<open>outerHTML\<close> getters return (the HTML
  fragment serialization algorithm of the HTML Standard as it stands): text and attribute
  values are escaped, every element gets a start tag with its attributes and an end tag.
  The elements of a rendered graphic are SVG elements, for which the algorithm has no
  void elements and no raw text.
\<close>

fun escapeString :: "bool \<Rightarrow> jsstring \<Rightarrow> jsstring" where
  "escapeString attributeMode [] = []"
| "escapeString attributeMode (c # cs) =
     (if c = 0x0026 then js ''&amp;''
      else if c = 0x00A0 then js ''&nbsp;''
      else if c = 0x003C then js ''&lt;''
      else if c = 0x003E then js ''&gt;''
      else if attributeMode \<and> c = DQ then js ''&quot;''
      else [c]) @ escapeString attributeMode cs"

fun serialize :: "node \<Rightarrow> jsstring" where
  "serialize (Text t) = escapeString False t"
| "serialize (Element tg as cs) =
     js ''<'' @ tg @
     concat (map (\<lambda>(name, v). js '' '' @ name @ js ''='' @ [DQ] @ escapeString True v @ [DQ]) as) @
     js ''>'' @ concat (map serialize cs) @ js ''</'' @ tg @ js ''>''"

definition innerHTML :: "node \<Rightarrow> jsstring" where
  "innerHTML n = concat (map serialize (childNodes n))"

definition outerHTML :: "node \<Rightarrow> jsstring" where
  "outerHTML n = serialize n"

text \<open>
  The HTML fragment parser belongs to the browser, not to the repository: it is a
  parameter, a function from the context element and the markup to the nodes it
  creates. Setting \<open>innerHTML\<close> replaces the children of the element by the parsed
  nodes and leaves the element itself as it is.
\<close>

type_synonym parser = "node \<Rightarrow> jsstring \<Rightarrow> node list"

definition set_innerHTML :: "parser \<Rightarrow> node \<Rightarrow> jsstring \<Rightarrow> node" where
  "set_innerHTML parse n markup =
     (case n of Element tg as cs \<Rightarrow> Element tg as (parse n markup) | Text t \<Rightarrow> Text t)"

section \<open>Isolating identifiers\<close>

text \<open>
  \<open>isolateIds\<close> of \<open>main.ts\<close>. \<open>uuidv4\<close> is a parameter: \<open>uuidv4 k\<close> is what the
  call of \<open>uuidv4()\<close> for the element at index \<open>k\<close> of \<open>elementsWithIds\<close> returns.
  \<open>rewritten_markup\<close> is the right-hand side of the assignment in the loop body.
\<close>

definition rewritten_markup :: "node \<Rightarrow> jsstring \<Rightarrow> jsstring \<Rightarrow> jsstring" where
  "rewritten_markup svgEl oldId newId = replaceAll (innerHTML svgEl) oldId newId"

fun isolateIds_loop :: "parser \<Rightarrow> (nat \<Rightarrow> jsstring) \<Rightarrow> nat \<Rightarrow> node list \<Rightarrow> node \<Rightarrow> node" where
  "isolateIds_loop parse uuidv4 k [] svgEl = svgEl"
| "isolateIds_loop parse uuidv4 k (element # rest) svgEl =
     (let oldId = element_id element;
          newId = uuidv4 k
      in isolateIds_loop parse uuidv4 (Suc k) rest
           (set_innerHTML parse svgEl (rewritten_markup svgEl oldId newId)))"

definition isolateIds :: "parser \<Rightarrow> (nat \<Rightarrow> jsstring) \<Rightarrow> node \<Rightarrow> node" where
  "isolateIds parse uuidv4 svgEl =
     (let elementsWithIds = querySelectorAll_id svgEl
      in isolateIds_loop parse uuidv4 0 elementsWithIds svgEl)"

section \<open>Post-processing a rendered graphic\<close>

text \<open>
  The target of a \<open>tikzjax-load-finished\<close> event with its place in the document: the
  parent element and the siblings before and after the target. \<open>optimize\<close> is SVGO's
  function with the fixed configuration of \<open>optimizeSVG\<close>; it is not part of the
  repository and is a parameter, \<open>None\<close> when it raises. Setting \<open>outerHTML\<close> parses
  the markup in the context of the parent and puts the nodes in the place of the target.
\<close>

record settings =
  invertColorsInDarkMode :: bool

record event =
  parentTagName :: jsstring
  parentAttributes :: "(jsstring \<times> jsstring) list"
  previousSiblings :: "node list"
  target :: node
  nextSiblings :: "node list"

datatype fault = TypeError | MinimizationFault

definition parent_of :: "event \<Rightarrow> node \<Rightarrow> node" where
  "parent_of e svgEl =
     Element (parentTagName e) (parentAttributes e) (previousSiblings e @ [svgEl] @ nextSiblings e)"

definition set_outerHTML :: "parser \<Rightarrow> event \<Rightarrow> node \<Rightarrow> jsstring \<Rightarrow> node" where
  "set_outerHTML parse e svgEl markup =
     Element (parentTagName e) (parentAttributes e)
       (previousSiblings e @ parse (parent_of e svgEl) markup @ nextSiblings e)"

text \<open>
  \<open>postProcessSvg\<close> of \<open>main.ts\<close>. The result is the parent of the target after the
  call; when the minimizer raises, the fault and the parent with the target as
  \<open>isolateIds\<close> left it.
\<close>

definition postProcessSvg ::
  "settings \<Rightarrow> parser \<Rightarrow> (nat \<Rightarrow> jsstring) \<Rightarrow> (jsstring \<Rightarrow> jsstring option) \<Rightarrow> event
     \<Rightarrow> fault option \<times> node" where
  "postProcessSvg st parse uuidv4 optimize e =
     (let svgEl = isolateIds parse uuidv4 (target e);
          svg = outerHTML svgEl;
          svg1 = (if invertColorsInDarkMode st then colorSVGinDarkMode svg else svg)
      in case optimize svg1 of
           None \<Rightarrow> (Some MinimizationFault, parent_of e svgEl)
         | Some svg2 \<Rightarrow> (None, set_outerHTML parse e svgEl svg2))"

section \<open>Injecting and removing the engine\<close>

text \<open>
  A document: the children of the document node (the \<open>html\<close> element among them) and
  the event listeners registered on it. The DOM keeps at most one listener for a type
  and a callback, so the listeners are a set.
\<close>

datatype callback = PostProcessSvg | OtherCallback nat

record document =
  documentChildren :: "node list"
  listeners :: "(jsstring \<times> callback) set"

text \<open>\<open>doc.getElementById(i)\<close>: the first element in tree order whose \<open>id\<close> is \<open>i\<close>.\<close>

fun getElementById_in :: "node list \<Rightarrow> jsstring \<Rightarrow> node option" where
  "getElementById_in [] i = None"
| "getElementById_in (Text t # ns) i = getElementById_in ns i"
| "getElementById_in (Element tg as cs # ns) i =
     (if map_of as (js ''id'') = Some i then Some (Element tg as cs)
      else (case getElementById_in cs i of
              Some s \<Rightarrow> Some s
            | None \<Rightarrow> getElementById_in ns i))"

definition getElementById :: "document \<Rightarrow> jsstring \<Rightarrow> node option" where
  "getElementById doc i = getElementById_in (documentChildren doc) i"

text \<open>\<open>s.remove()\<close> for the element \<open>s\<close> that \<open>getElementById\<close> returned.\<close>

fun remove_element :: "node list \<Rightarrow> jsstring \<Rightarrow> node list" where
  "remove_element [] i = []"
| "remove_element (Text t # ns) i = Text t # remove_element ns i"
| "remove_element (Element tg as cs # ns) i =
     (if map_of as (js ''id'') = Some i then ns
      else if getElementById_in cs i \<noteq> None then Element tg as (remove_element cs i) # ns
      else Element tg as cs # remove_element ns i)"

text \<open>
  \<open>doc.body.appendChild(s)\<close>: \<open>doc.body\<close> is the first \<open>body\<close> or \<open>frameset\<close>
  child of the \<open>html\<close> document element, and \<open>null\<close> without one.
\<close>

fun appendChild_body :: "node list \<Rightarrow> node \<Rightarrow> node list option" where
  "appendChild_body [] s = None"
| "appendChild_body (Text t # ns) s = map_option ((#) (Text t)) (appendChild_body ns s)"
| "appendChild_body (Element tg as cs # ns) s =
     (if tg = js ''body'' \<or> tg = js ''frameset'' then Some (Element tg as (cs @ [s]) # ns)
      else map_option ((#) (Element tg as cs)) (appendChild_body ns s))"

fun appendChild_documentBody :: "node list \<Rightarrow> node \<Rightarrow> node list option" where
  "appendChild_documentBody [] s = None"
| "appendChild_documentBody (Text t # ns) s =
     map_option ((#) (Text t)) (appendChild_documentBody ns s)"
| "appendChild_documentBody (Element tg as cs # ns) s =
     (if tg = js ''html'' then map_option (\<lambda>cs'. Element tg as cs' # ns) (appendChild_body cs s)
      else None)"

text \<open>
  \<open>loadTikZJax\<close> and \<open>unloadTikZJax\<close> of \<open>main.ts\<close>. The inlined engine source
  \<open>tikzjaxJs\<close> is not under \<open>src/\<close>: the child nodes that \<open>s.innerText = tikzjaxJs\<close>
  gives the script are the parameter \<open>payload\<close>.
\<close>

definition tikzjax_script :: "node list \<Rightarrow> node" where
  "tikzjax_script payload =
     Element (js ''script'')
       [(js ''id'', js ''tikzjax''), (js ''type'', js ''text/javascript'')] payload"

definition loadTikZJax :: "node list \<Rightarrow> document \<Rightarrow> fault + document" where
  "loadTikZJax payload doc =
     (let s = tikzjax_script payload
      in case appendChild_documentBody (documentChildren doc) s of
           None \<Rightarrow> Inl TypeError
         | Some ns \<Rightarrow>
             Inr (doc\<lparr> documentChildren := ns,
                       listeners := insert (js ''tikzjax-load-finished'', PostProcessSvg) (listeners doc) \<rparr>))"

definition unloadTikZJax :: "document \<Rightarrow> fault + document" where
  "unloadTikZJax doc =
     (case getElementById doc (js ''tikzjax'') of
        None \<Rightarrow> Inl TypeError
      | Some s \<Rightarrow>
          Inr (doc\<lparr> documentChildren := remove_element (documentChildren doc) (js ''tikzjax''),
                    listeners := listeners doc - {(js ''tikzjax-load-finished'', PostProcessSvg)} \<rparr>))"


section \<open>Identifiers in the markup and in the tree\<close>

text \<open>
  The notions in which the effect of \<open>isolateIds\<close> is stated. An occurrence of \<open>old\<close>
  in the markup \<open>pre @ u @ post\<close> overlaps the part \<open>u\<close> when it begins before the end
  of \<open>u\<close> and ends after the end of \<open>pre\<close> (it lies inside \<open>u\<close>, or across one of
  its ends).
\<close>

definition overlaps :: "jsstring \<Rightarrow> jsstring \<Rightarrow> jsstring \<Rightarrow> jsstring \<Rightarrow> bool" where
  "overlaps old pre u post \<longleftrightarrow>
     (\<exists>i\<in>set [0..<length pre + length u].
        length pre < i + length old \<and> prefix old (drop i (pre @ u @ post)))"

text \<open>
  A text is plain when the serialization writes it as it is (no \<open>&\<close>, no-break space,
  \<open><\<close> or \<open>>\<close>), and an attribute value when it holds no double quote either. An
  identifier is identifier-like when it is not empty and holds none of the characters that
  delimit tags and attributes in the serialization: \<open><\<close>, \<open>>\<close>, \<open>/\<close>, \<open>=\<close>, the space
  and the double quote.
\<close>

definition plain_text :: "jsstring \<Rightarrow> bool" where
  "plain_text t \<longleftrightarrow> (\<forall>c\<in>set t. c \<noteq> 0x0026 \<and> c \<noteq> 0x00A0 \<and> c \<noteq> 0x003C \<and> c \<noteq> 0x003E)"

definition plain_value :: "jsstring \<Rightarrow> bool" where
  "plain_value v \<longleftrightarrow> plain_text v \<and> DQ \<notin> set v"

definition identifier_like :: "jsstring \<Rightarrow> bool" where
  "identifier_like old \<longleftrightarrow> old \<noteq> [] \<and> (\<forall>c\<in>set old. c \<notin> set (js ''<>/= '') \<and> c \<noteq> DQ)"

text \<open>\<open>map_values f\<close> applies \<open>f\<close> to every attribute value and every text of a tree.\<close>

fun map_values :: "(jsstring \<Rightarrow> jsstring) \<Rightarrow> node \<Rightarrow> node" where
  "map_values f (Text t) = Text (f t)"
| "map_values f (Element tg as cs) =
     Element tg (map (\<lambda>(name, v). (name, f v)) as) (map (map_values f) cs)"

definition isText :: "node \<Rightarrow> bool" where
  "isText n = (case n of Text t \<Rightarrow> True | Element tg as cs \<Rightarrow> False)"

fun no_adjacent_text :: "node list \<Rightarrow> bool" where
  "no_adjacent_text [] = True"
| "no_adjacent_text [n] = True"
| "no_adjacent_text (n # m # ns) = (\<not> (isText n \<and> isText m) \<and> no_adjacent_text (m # ns))"

text \<open>
  A tree suits the identifier \<open>old\<close> when \<open>old\<close> occurs in no tag name and in no
  attribute name, every text and attribute value is plain, and no two texts are
  neighbours: then an occurrence of an identifier-like \<open>old\<close> in the serialization lies
  inside one attribute value or one text.
\<close>

fun suits :: "jsstring \<Rightarrow> node \<Rightarrow> bool" where
  "suits old (Text t) = plain_text t"
| "suits old (Element tg as cs) =
     (\<not> includes_str tg old \<and>
      (\<forall>(name, v)\<in>set as. \<not> includes_str name old \<and> plain_value v) \<and>
      (\<forall>c\<in>set cs. suits old c) \<and> no_adjacent_text cs)"

text \<open>
  What the passes for the pairs of an old and a fresh identifier, one after the other, make
  of an attribute value or a text.
\<close>

definition isolated_value :: "(jsstring \<times> jsstring) list \<Rightarrow> jsstring \<Rightarrow> jsstring" where
  "isolated_value pairs v = foldl (\<lambda>v (old, new). replaceAll v old new) v pairs"

section \<open>Examples\<close>

text \<open>
  A stand-in for the browser's parser in the examples: it reads the serialization of each
  listed forest back as that forest, as an HTML parser does for the markup of the
  examples, and answers any other markup by a marker that no result below shows.
\<close>

definition reads_back :: "node list list \<Rightarrow> parser" where
  "reads_back forests ctx markup =
     (case find (\<lambda>ns. concat (map serialize ns) = markup) forests of
        Some ns \<Rightarrow> ns
      | None \<Rightarrow> [Text (js ''(markup outside the example)'')])"

definition uuid_A :: jsstring where
  "uuid_A = js ''7c9e6679-7425-40de-944d-e07fc1f90de7''"

definition uuid_B :: jsstring where
  "uuid_B = js ''3d241101-e2cc-4255-8cdf-4136c566d962''"

definition uuid_C :: jsstring where
  "uuid_C = js ''3b241101-e2bb-4255-8caf-4136c566a962''"

definition uuid_D :: jsstring where
  "uuid_D = js ''7c9e6679-7425-40de-944b-e07fc1f90ae7''"

text \<open>
  A graphic whose second identifier extends the first:
  \<open><svg><path id="g1"></path><path id="g12"></path><use href="#g12"></use></svg>\<close>.
\<close>

definition glyph_graphic :: node where
  "glyph_graphic =
     Element (js ''svg'') []
       [Element (js ''path'') [(js ''id'', js ''g1'')] [],
        Element (js ''path'') [(js ''id'', js ''g12'')] [],
        Element (js ''use'') [(js ''href'', js ''#g12'')] []]"

definition glyph_graphic_isolated :: "node list" where
  "glyph_graphic_isolated =
     [Element (js ''path'') [(js ''id'', uuid_A)] [],
      Element (js ''path'') [(js ''id'', uuid_A @ js ''2'')] [],
      Element (js ''use'') [(js ''href'', js ''#'' @ uuid_A @ js ''2'')] []]"

text \<open>
  The same with the longer identifier on the root, which a reference inside names:
  \<open><svg id="g12"><path id="g1"></path><use href="#g12"></use></svg>\<close>.
\<close>

definition rooted_graphic :: node where
  "rooted_graphic =
     Element (js ''svg'') [(js ''id'', js ''g12'')]
       [Element (js ''path'') [(js ''id'', js ''g1'')] [],
        Element (js ''use'') [(js ''href'', js ''#g12'')] []]"

definition rooted_graphic_isolated :: "node list" where
  "rooted_graphic_isolated =
     [Element (js ''path'') [(js ''id'', uuid_A)] [],
      Element (js ''use'') [(js ''href'', js ''#'' @ uuid_A @ js ''2'')] []]"

text \<open>
  A graphic in which two elements carry the same identifier:
  \<open><svg><g id="x"></g><g id="x"></g></svg>\<close>.
\<close>

definition twin_graphic :: node where
  "twin_graphic =
     Element (js ''svg'') []
       [Element (js ''g'') [(js ''id'', js ''x'')] [],
        Element (js ''g'') [(js ''id'', js ''x'')] []]"

definition twin_graphic_isolated :: "node list" where
  "twin_graphic_isolated =
     [Element (js ''g'') [(js ''id'', uuid_A)] [],
      Element (js ''g'') [(js ''id'', uuid_A)] []]"

text \<open>
  A graphic with the identifiers \<open>a\<close> and \<open>b\<close>:
  \<open><svg><circle id="a"></circle><use href="#a"></use><rect id="b"></rect></svg>\<close>,
  as it is after the pass for \<open>a\<close>, and as it is after the pass for \<open>b\<close>.
\<close>

definition ab_graphic :: node where
  "ab_graphic =
     Element (js ''svg'') []
       [Element (js ''circle'') [(js ''id'', js ''a'')] [],
        Element (js ''use'') [(js ''href'', js ''#a'')] [],
        Element (js ''rect'') [(js ''id'', js ''b'')] []]"

definition ab_graphic_after_a :: "node list" where
  "ab_graphic_after_a =
     [Element (js ''circle'') [(js ''id'', uuid_C)] [],
      Element (js ''use'') [(js ''href'', js ''#'' @ uuid_C)] [],
      Element (js ''rect'') [(js ''id'', js ''b'')] []]"

definition uuid_C_rewritten :: jsstring where
  "uuid_C_rewritten =
     js ''3'' @ uuid_D @ js ''241101-e2'' @ uuid_D @ uuid_D @ js ''-4255-8caf-4136c566a962''"

definition ab_graphic_after_b :: "node list" where
  "ab_graphic_after_b =
     [Element (js ''circle'') [(js ''id'', uuid_C_rewritten)] [],
      Element (js ''use'') [(js ''href'', js ''#'' @ uuid_C_rewritten)] [],
      Element (js ''rect'') [(js ''id'', uuid_D)] []]"

text \<open>
  The scenario of the specification,
  \<open><svg><circle id="a"></circle><use href="#a"></use></svg>\<close>.
\<close>

definition circle_graphic :: node where
  "circle_graphic =
     Element (js ''svg'') []
       [Element (js ''circle'') [(js ''id'', js ''a'')] [],
        Element (js ''use'') [(js ''href'', js ''#a'')] []]"

definition circle_graphic_isolated :: "node list" where
  "circle_graphic_isolated =
     [Element (js ''circle'') [(js ''id'', uuid_A)] [],
      Element (js ''use'') [(js ''href'', js ''#'' @ uuid_A)] []]"

text \<open>
  A document with an empty body, the same document with an element that already carries
  the identifier \<open>tikzjax\<close>, and what is left of the latter after injecting and
  removing the engine.
\<close>

definition plain_document :: document where
  "plain_document =
     \<lparr> documentChildren =
         [Element (js ''html'') []
            [Element (js ''head'') [] [],
             Element (js ''body'') [] [Element (js ''div'') [(js ''class'', js ''app-container'')] []]]],
       listeners = {} \<rparr>"

definition occupied_document :: document where
  "occupied_document =
     \<lparr> documentChildren =
         [Element (js ''html'') []
            [Element (js ''head'') [] [],
             Element (js ''body'') [] [Element (js ''div'') [(js ''id'', js ''tikzjax'')] []]]],
       listeners = {} \<rparr>"

definition occupied_document_after :: document where
  "occupied_document_after =
     \<lparr> documentChildren =
         [Element (js ''html'') []
            [Element (js ''head'') [] [],
             Element (js ''body'') [] [tikzjax_script []]]],
       listeners = {} \<rparr>"

definition plain_document_injected :: document where
  "plain_document_injected =
     \<lparr> documentChildren =
         [Element (js ''html'') []
            [Element (js ''head'') [] [],
             Element (js ''body'') []
               [Element (js ''div'') [(js ''class'', js ''app-container'')] [],
                tikzjax_script []]]],
       listeners = {(js ''tikzjax-load-finished'', PostProcessSvg)} \<rparr>"

text \<open>
  A graphic with two identifiers and a reference,
  \<open><svg><circle id="p"></circle><use href="#p"></use><rect id="q"></rect></svg>\<close>,
  after the pass for \<open>p\<close> and after both passes.
\<close>

definition pq_graphic :: node where
  "pq_graphic =
     Element (js ''svg'') []
       [Element (js ''circle'') [(js ''id'', js ''p'')] [],
        Element (js ''use'') [(js ''href'', js ''#p'')] [],
        Element (js ''rect'') [(js ''id'', js ''q'')] []]"

definition pq_graphic_after_p :: "node list" where
  "pq_graphic_after_p =
     [Element (js ''circle'') [(js ''id'', uuid_A)] [],
      Element (js ''use'') [(js ''href'', js ''#'' @ uuid_A)] [],
      Element (js ''rect'') [(js ''id'', js ''q'')] []]"

definition pq_graphic_isolated :: "node list" where
  "pq_graphic_isolated =
     [Element (js ''circle'') [(js ''id'', uuid_A)] [],
      Element (js ''use'') [(js ''href'', js ''#'' @ uuid_A)] [],
      Element (js ''rect'') [(js ''id'', uuid_B)] []]"

text \<open>
  A graphic whose identifier is a letter of the attribute name \<open>id\<close>:
  \<open><svg><g id="d"></g><use href="#d"></use></svg>\<close>. The pass for \<open>d\<close> produces the
  markup \<open><g i7c9e...="7c9e..."></g><use href="#7c9e..."></use>\<close>, whose first element
  has an attribute of another name than \<open>id\<close>.
\<close>

definition d_graphic :: node where
  "d_graphic =
     Element (js ''svg'') []
       [Element (js ''g'') [(js ''id'', js ''d'')] [],
        Element (js ''use'') [(js ''href'', js ''#d'')] []]"

definition d_graphic_isolated :: "node list" where
  "d_graphic_isolated =
     [Element (js ''g'') [(js ''i'' @ uuid_A, uuid_A)] [],
      Element (js ''use'') [(js ''href'', js ''#'' @ uuid_A)] []]"

text \<open>
  A graphic whose second identifier is made of characters of the first fresh identifier
  without occurring in it:
  \<open><svg><path id="g1"></path><path id="d9"></path><use href="#d9"></use></svg>\<close>, after
  the pass for \<open>g1\<close> and after both passes.
\<close>

definition gd_graphic :: node where
  "gd_graphic =
     Element (js ''svg'') []
       [Element (js ''path'') [(js ''id'', js ''g1'')] [],
        Element (js ''path'') [(js ''id'', js ''d9'')] [],
        Element (js ''use'') [(js ''href'', js ''#d9'')] []]"

definition gd_graphic_after_g1 :: "node list" where
  "gd_graphic_after_g1 =
     [Element (js ''path'') [(js ''id'', uuid_A)] [],
      Element (js ''path'') [(js ''id'', js ''d9'')] [],
      Element (js ''use'') [(js ''href'', js ''#d9'')] []]"

definition gd_graphic_isolated :: "node list" where
  "gd_graphic_isolated =
     [Element (js ''path'') [(js ''id'', uuid_A)] [],
      Element (js ''path'') [(js ''id'', uuid_B)] [],
      Element (js ''use'') [(js ''href'', js ''#'' @ uuid_B)] []]"

text \<open>
  A completion event: the graphic
  \<open><svg><circle id="x" fill="black"></circle><use href="#x"></use></svg>\<close> inside a
  \<open>div\<close>, the graphic after \<open>isolateIds\<close>, and after the recolouring as well.
\<close>

definition black_graphic :: node where
  "black_graphic =
     Element (js ''svg'') []
       [Element (js ''circle'') [(js ''id'', js ''x''), (js ''fill'', js ''black'')] [],
        Element (js ''use'') [(js ''href'', js ''#x'')] []]"

definition black_graphic_isolated :: "node list" where
  "black_graphic_isolated =
     [Element (js ''circle'') [(js ''id'', uuid_A), (js ''fill'', js ''black'')] [],
      Element (js ''use'') [(js ''href'', js ''#'' @ uuid_A)] []]"

definition black_graphic_recolored :: node where
  "black_graphic_recolored =
     Element (js ''svg'') []
       [Element (js ''circle'') [(js ''id'', uuid_A), (js ''fill'', js ''currentColor'')] [],
        Element (js ''use'') [(js ''href'', js ''#'' @ uuid_A)] []]"

definition black_event :: event where
  "black_event =
     \<lparr> parentTagName = js ''div'', parentAttributes = [],
       previousSiblings = [], target = black_graphic, nextSiblings = [] \<rparr>"

section \<open>Facts about the string primitives\<close>

lemma replaceAlts_absent:
  "\<forall>p\<in>set pats. \<not> includes_str s p \<Longrightarrow> replaceAlts pats new s = s"
proof (induction s)
  case Nil
  then show ?case by auto
next
  case (Cons c cs)
  then have "find (\<lambda>p. prefix p (c # cs)) pats = None"
    by (simp add: find_None_iff)
  with Cons show ?case by simp
qed

lemma split_lf_not_Nil: "split_lf s \<noteq> []"
  by (induction s) (auto split: list.splits)

lemma split_lf_no_LF: "l \<in> set (split_lf s) \<Longrightarrow> LF \<notin> set l"
  by (induction s arbitrary: l) (auto split: list.splits if_splits)

lemma split_lf_plain: "LF \<notin> set l \<Longrightarrow> split_lf l = [l]"
  by (induction l) auto

lemma split_lf_append: "LF \<notin> set l \<Longrightarrow> split_lf (l @ LF # r) = l # split_lf r"
  by (induction l) auto

lemma split_lf_join:
  "ls \<noteq> [] \<Longrightarrow> \<forall>l\<in>set ls. LF \<notin> set l \<Longrightarrow> split_lf (join [LF] ls) = ls"
  by (induction "[LF]" ls rule: join.induct) (auto simp: split_lf_plain split_lf_append)

lemma join_split_lf: "join [LF] (split_lf x) = x"
proof (induction x)
  case Nil
  then show ?case by simp
next
  case (Cons c cs)
  then show ?case
    using split_lf_not_Nil [of cs]
    by (cases "split_lf cs"; cases "tl (split_lf cs)") (auto split: list.splits)
qed

lemma length_join:
  "length (join sep ls) = sum_list (map length ls) + length sep * (length ls - 1)"
  by (induction sep ls rule: join.induct) auto

lemma trimEnd_idem: "trimEnd (trimEnd s) = trimEnd s"
  unfolding trimEnd_def by simp

lemma trimStart_trimEnd: "trimStart (trimEnd (trimStart s)) = trimEnd (trimStart s)"
  unfolding trimStart_def trimEnd_def
  by (metis (no_types, lifting) dropWhile_eq_Nil_conv
    dropWhile_eq_self_iff dropWhile_last hd_dropWhile hd_rev rev_is_Nil_conv
    rev_swap)

lemma trim_idem: "trim (trim s) = trim s"
  unfolding trim_def by (simp add: trimStart_trimEnd trimEnd_idem)

lemma set_trim: "set (trim s) \<subseteq> set s"
  unfolding trim_def trimEnd_def trimStart_def
  by (metis set_rev set_dropWhileD subsetI)

lemma length_trim: "length (trim l) \<le> length l"
  unfolding trim_def trimEnd_def trimStart_def
  by (metis length_dropWhile_le length_rev le_trans)

lemma length_replaceAlts_le: "length (replaceAlts pats [] s) \<le> length s"
  by (induction pats "[] :: jsstring" s rule: replaceAlts.induct)
     (auto split: option.splits simp: le_SucI)

lemma length_replaceAlts_less:
  "p \<noteq> [] \<Longrightarrow> includes_str s p \<Longrightarrow> length (replaceAlts [p] [] s) < length s"
proof (induction s)
  case Nil
  then show ?case by simp
next
  case (Cons c cs)
  show ?case
  proof (cases "prefix p (c # cs)")
    case True
    have "length (replaceAlts [p] [] (drop (length p - 1) cs)) \<le> length cs"
      using length_replaceAlts_le [of "[p]" "drop (length p - 1) cs"] by simp
    with True Cons.prems show ?thesis by simp
  next
    case False
    with Cons show ?thesis by simp
  qed
qed

subsection \<open>Tidying twice\<close>

lemma tidy_lines_props:
  assumes "l \<in> set (filter (\<lambda>line. line \<noteq> []) (map trim (split_lf x)))"
  shows "l \<noteq> []" and "trim l = l" and "LF \<notin> set l"
proof -
  from assms obtain l0 where l0: "l0 \<in> set (split_lf x)" and l: "l = trim l0" and ne: "l \<noteq> []"
    by auto
  show "l \<noteq> []" by (rule ne)
  show "trim l = l" by (simp add: l trim_idem)
  from l0 have "LF \<notin> set l0" by (rule split_lf_no_LF)
  with set_trim [of l0] show "LF \<notin> set l" by (auto simp: l)
qed

lemma tidy_of_clean_lines:
  assumes ls: "\<forall>l\<in>set ls. l \<noteq> [] \<and> trim l = l \<and> LF \<notin> set l"
    and clean: "\<not> includes_str (join [LF] ls) (js ''&nbsp;'')"
  shows "tidyTikzSource (join [LF] ls) = join [LF] ls"
proof -
  have r: "replaceAll (join [LF] ls) (js ''&nbsp;'') [] = join [LF] ls"
    unfolding replaceAll_def using clean by (intro replaceAlts_absent) simp
  show ?thesis
  proof (cases "ls = []")
    case True
    then show ?thesis
      by (simp add: tidyTikzSource_def replaceAll_def trim_def trimStart_def trimEnd_def)
  next
    case False
    with ls have s: "split_lf (join [LF] ls) = ls"
      by (intro split_lf_join) auto
    from ls have m: "map trim ls = ls"
      by (intro map_idI) simp
    from ls have f: "filter (\<lambda>line. line \<noteq> []) ls = ls"
      by (intro filter_True) simp
    show ?thesis
      by (simp add: tidyTikzSource_def Let_def r s m f)
  qed
qed

lemma tidy_idem_if:
  assumes "\<not> includes_str (tidyTikzSource s) (js ''&nbsp;'')"
  shows "tidyTikzSource (tidyTikzSource s) = tidyTikzSource s"
proof -
  define ls where
    "ls = filter (\<lambda>line. line \<noteq> []) (map trim (split_lf (replaceAll s (js ''&nbsp;'') [])))"
  have t: "tidyTikzSource s = join [LF] ls"
    by (simp add: tidyTikzSource_def Let_def ls_def)
  have "\<forall>l\<in>set ls. l \<noteq> [] \<and> trim l = l \<and> LF \<notin> set l"
    unfolding ls_def using tidy_lines_props by blast
  with assms show ?thesis
    unfolding t by (intro tidy_of_clean_lines)
qed

lemma sum_tidy_lines:
  "sum_list (map length (filter P (map trim ls))) \<le> sum_list (map length ls)"
  by (induction ls) (auto simp: add_mono length_trim trans_le_add2)

lemma length_tidy_le: "length (tidyTikzSource s) \<le> length (replaceAll s (js ''&nbsp;'') [])"
proof -
  define x where "x = replaceAll s (js ''&nbsp;'') []"
  define ls where "ls = filter (\<lambda>line. line \<noteq> []) (map trim (split_lf x))"
  have "length (join [LF] ls) = sum_list (map length ls) + (length ls - 1)"
    by (simp add: length_join)
  also have "\<dots> \<le> sum_list (map length (split_lf x)) + (length (split_lf x) - 1)"
  proof -
    have "length ls \<le> length (map trim (split_lf x))"
      unfolding ls_def by (rule length_filter_le)
    then have "length ls - 1 \<le> length (split_lf x) - 1" by simp
    moreover have "sum_list (map length ls) \<le> sum_list (map length (split_lf x))"
      unfolding ls_def by (rule sum_tidy_lines)
    ultimately show ?thesis by (rule add_mono [rotated])
  qed
  also have "\<dots> = length (join [LF] (split_lf x))"
    by (simp add: length_join)
  also have "\<dots> = length x" by (simp add: join_split_lf)
  finally show ?thesis
    by (simp add: tidyTikzSource_def Let_def ls_def x_def)
qed

lemma nbsp_not_empty: "js ''&nbsp;'' \<noteq> []"
  by (simp add: js_def)


subsection \<open>Global replacement\<close>

lemma find_prefix_SomeD:
  "find (\<lambda>p. prefix p s) pats = Some p \<Longrightarrow> p \<in> set pats \<and> prefix p s"
  by (auto simp: find_Some_iff)

lemma prefix_drop_eq: "prefix p (c # cs) \<Longrightarrow> p \<noteq> [] \<Longrightarrow> c # cs = p @ drop (length p - 1) cs"
  by (cases p) (auto simp: prefix_def)

lemma length_replaceAlts_ge:
  "\<forall>p\<in>set pats. p \<noteq> [] \<and> length p \<le> length new \<Longrightarrow> length s \<le> length (replaceAlts pats new s)"
proof (induction pats new s rule: replaceAlts.induct)
  case (1 pats new)
  then show ?case by simp
next
  case (2 pats new c cs)
  show ?case
  proof (cases "find (\<lambda>p. prefix p (c # cs)) pats")
    case None
    with 2 show ?thesis by simp
  next
    case (Some p)
    then have p: "p \<in> set pats" "prefix p (c # cs)" by (auto dest: find_prefix_SomeD)
    with "2.prems" have ne: "p \<noteq> []" and le: "length p \<le> length new" by auto
    from p ne have "length p \<le> Suc (length cs)" by (auto dest: prefix_length_le)
    moreover from 2 Some ne
    have "length cs - (length p - 1) \<le> length (replaceAlts pats new (drop (length p - 1) cs))"
      by simp
    moreover from ne have "0 < length p" by simp
    ultimately have "Suc (length cs) \<le> length new + length (replaceAlts pats new (drop (length p - 1) cs))"
      using le by arith
    with Some ne show ?thesis by simp
  qed
qed

lemma length_replaceAlts_gt:
  "\<forall>p\<in>set pats. p \<noteq> [] \<and> length p < length new \<Longrightarrow> \<exists>p\<in>set pats. includes_str s p
     \<Longrightarrow> length s < length (replaceAlts pats new s)"
proof (induction s)
  case Nil
  then show ?case by auto
next
  case (Cons c cs)
  show ?case
  proof (cases "find (\<lambda>p. prefix p (c # cs)) pats")
    case None
    then have "\<forall>p\<in>set pats. \<not> prefix p (c # cs)" by (simp add: find_None_iff)
    with Cons.prems have "\<exists>p\<in>set pats. includes_str cs p" by auto
    with Cons None show ?thesis by simp
  next
    case (Some p)
    then have p: "p \<in> set pats" "prefix p (c # cs)" by (auto dest: find_prefix_SomeD)
    with Cons.prems have ne: "p \<noteq> []" and le: "length p < length new" by auto
    from p ne have "length p \<le> Suc (length cs)" by (auto dest: prefix_length_le)
    moreover from Cons.prems
    have "length (drop (length p - 1) cs) \<le> length (replaceAlts pats new (drop (length p - 1) cs))"
      by (intro length_replaceAlts_ge) (auto intro: less_imp_le)
    then have "length cs - (length p - 1) \<le> length (replaceAlts pats new (drop (length p - 1) cs))"
      by simp
    moreover from ne have "0 < length p" by simp
    ultimately have "Suc (length cs) < length new + length (replaceAlts pats new (drop (length p - 1) cs))"
      using le by arith
    with Some ne show ?thesis by simp
  qed
qed

lemma replaceAlts_rewritten:
  "[] \<notin> set pats \<Longrightarrow> rewritten (set pats) new s (replaceAlts pats new s)"
proof (induction pats new s rule: replaceAlts.induct)
  case (1 pats new)
  then show ?case by (simp add: rewritten_Nil)
next
  case (2 pats new c cs)
  show ?case
  proof (cases "find (\<lambda>p. prefix p (c # cs)) pats")
    case None
    with 2 show ?thesis by (simp add: rewritten_copy)
  next
    case (Some p)
    then have p: "p \<in> set pats" "prefix p (c # cs)" by (auto dest: find_prefix_SomeD)
    with "2.prems" have ne: "p \<noteq> []" by auto
    from 2 Some ne
    have "rewritten (set pats) new (drop (length p - 1) cs) (replaceAlts pats new (drop (length p - 1) cs))"
      by simp
    with p have "rewritten (set pats) new (p @ drop (length p - 1) cs)
       (new @ replaceAlts pats new (drop (length p - 1) cs))"
      by (intro rewritten_token)
    moreover have "replaceAlts pats new (c # cs) = new @ replaceAlts pats new (drop (length p - 1) cs)"
      using Some ne by simp
    ultimately show ?thesis
      using prefix_drop_eq [OF p(2) ne] by simp
  qed
qed

lemma replaceAlts_skip:
  "\<forall>p\<in>set pats. p \<noteq> [] \<and> hd p \<notin> set x \<Longrightarrow> replaceAlts pats new (x @ r) = x @ replaceAlts pats new r"
proof (induction x)
  case Nil
  then show ?case by simp
next
  case (Cons c x)
  have "find (\<lambda>p. prefix p (c # x @ r)) pats = None"
    unfolding find_None_iff
  proof
    assume "\<exists>p. p \<in> set pats \<and> prefix p (c # x @ r)"
    then obtain p where "p \<in> set pats" "prefix p (c # x @ r)" by blast
    with Cons.prems show False by (cases p) auto
  qed
  moreover from Cons.prems have "\<forall>p\<in>set pats. p \<noteq> [] \<and> hd p \<notin> set x" by auto
  then have "replaceAlts pats new (x @ r) = x @ replaceAlts pats new r" by (rule Cons.IH)
  ultimately show ?case by simp
qed

lemma replaceAlts_append_no_straddle:
  assumes "[] \<notin> set pats"
    and "\<forall>s. s \<noteq> [] \<and> suffix s x \<longrightarrow> (\<forall>p\<in>set pats. prefix p (s @ r) \<longrightarrow> prefix p s)"
  shows "replaceAlts pats new (x @ r) = replaceAlts pats new x @ replaceAlts pats new r"
  using assms
proof (induction pats new x rule: replaceAlts.induct)
  case (1 pats new)
  then show ?case by simp
next
  case (2 pats new c cs)
  have same: "prefix p (c # cs @ r) \<longleftrightarrow> prefix p (c # cs)" if "p \<in> set pats" for p
  proof
    assume "prefix p (c # cs @ r)"
    with "2.prems"(2) that show "prefix p (c # cs)"
      by (metis append_Cons list.distinct(1) suffix_order.order_refl)
  next
    assume "prefix p (c # cs)"
    then show "prefix p (c # cs @ r)"
      by (metis append_Cons prefix_prefix)
  qed
  then have f: "find (\<lambda>p. prefix p (c # cs @ r)) pats = find (\<lambda>p. prefix p (c # cs)) pats"
    by (intro find_cong) auto
  have sub: "\<forall>s. s \<noteq> [] \<and> suffix s t \<longrightarrow> (\<forall>p\<in>set pats. prefix p (s @ r) \<longrightarrow> prefix p s)"
    if "suffix t cs" for t
    using "2.prems"(2) that by (meson suffix_Cons suffix_order.trans)
  show ?case
  proof (cases "find (\<lambda>p. prefix p (c # cs)) pats")
    case None
    have "replaceAlts pats new (cs @ r) = replaceAlts pats new cs @ replaceAlts pats new r"
      by (rule "2.IH"(1) [OF None "2.prems"(1) sub [OF suffix_order.refl]])
    with None f show ?thesis by simp
  next
    case (Some p)
    then have p: "p \<in> set pats" "prefix p (c # cs)" by (auto dest: find_prefix_SomeD)
    with "2.prems" have ne: "p \<noteq> []" by auto
    from p ne have len: "length p - 1 \<le> length cs"
      using prefix_length_le by fastforce
    have "replaceAlts pats new (drop (length p - 1) cs @ r) =
      replaceAlts pats new (drop (length p - 1) cs) @ replaceAlts pats new r"
      by (rule "2.IH"(3) [OF Some ne "2.prems"(1) sub [OF suffix_drop]])
    with Some f ne len show ?thesis by simp
  qed
qed

subsection \<open>Recolouring\<close>

lemma recolor_black_absent:
  "\<not> includes_str s (quoted ''#000'') \<Longrightarrow> \<not> includes_str s (quoted ''black'')
     \<Longrightarrow> recolor_black s = s"
  unfolding recolor_black_def by (intro replaceAlts_absent) simp

lemma recolor_white_absent:
  "\<not> includes_str s (quoted ''#fff'') \<Longrightarrow> \<not> includes_str s (quoted ''white'')
     \<Longrightarrow> recolor_white s = s"
  unfolding recolor_white_def by (intro replaceAlts_absent) simp

lemma color_absent:
  assumes "\<forall>t\<in>set color_tokens. \<not> includes_str s t"
  shows "colorSVGinDarkMode s = s"
  using assms
  by (simp add: colorSVGinDarkMode_def color_tokens_def recolor_black_absent recolor_white_absent)

lemma length_recolor_white: "length x \<le> length (recolor_white x)"
  unfolding recolor_white_def by (intro length_replaceAlts_ge) (simp add: quoted_def js_def)

lemma color_length:
  assumes "\<exists>t\<in>set color_tokens. includes_str s t"
  shows "length s < length (colorSVGinDarkMode s)"
proof (cases "includes_str s (quoted ''#000'') \<or> includes_str s (quoted ''black'')")
  case True
  then have "length s < length (recolor_black s)"
    unfolding recolor_black_def
    by (intro length_replaceAlts_gt) (auto simp: quoted_def js_def)
  with length_recolor_white [of "recolor_black s"] show ?thesis
    by (simp add: colorSVGinDarkMode_def)
next
  case False
  then have "recolor_black s = s" by (simp add: recolor_black_absent)
  moreover from False assms
  have "\<exists>t\<in>set [quoted ''#fff'', quoted ''white'']. includes_str s t"
    by (auto simp: color_tokens_def)
  then have "length s < length (recolor_white s)"
    unfolding recolor_white_def
    by (intro length_replaceAlts_gt) (simp_all add: quoted_def js_def)
  ultimately show ?thesis by (simp add: colorSVGinDarkMode_def)
qed

lemma color_stages:
  "rewritten {quoted ''#000'', quoted ''black''} (quoted ''currentColor'') s (recolor_black s)"
  "rewritten {quoted ''#fff'', quoted ''white''} (quoted ''var(--background-primary)'')
     (recolor_black s) (colorSVGinDarkMode s)"
proof -
  have "rewritten (set [quoted ''#000'', quoted ''black'']) (quoted ''currentColor'') s
     (replaceAlts [quoted ''#000'', quoted ''black''] (quoted ''currentColor'') s)"
    by (intro replaceAlts_rewritten) (simp add: quoted_def)
  then show "rewritten {quoted ''#000'', quoted ''black''} (quoted ''currentColor'') s
     (recolor_black s)"
    by (simp add: recolor_black_def)
  have "rewritten (set [quoted ''#fff'', quoted ''white''])
     (quoted ''var(--background-primary)'') (recolor_black s)
     (replaceAlts [quoted ''#fff'', quoted ''white''] (quoted ''var(--background-primary)'')
        (recolor_black s))"
    by (intro replaceAlts_rewritten) (simp add: quoted_def)
  then show "rewritten {quoted ''#fff'', quoted ''white''} (quoted ''var(--background-primary)'')
     (recolor_black s) (colorSVGinDarkMode s)"
    by (simp add: colorSVGinDarkMode_def recolor_white_def)
qed

lemma recolor_black_token:
  "recolor_black (quoted ''#000'' @ y) = quoted ''currentColor'' @ recolor_black y"
  "recolor_black (quoted ''black'' @ y) = quoted ''currentColor'' @ recolor_black y"
  by (simp_all add: recolor_black_def quoted_def js_def DQ_def)

lemma recolor_white_token:
  "recolor_white (quoted ''#fff'' @ z) = quoted ''var(--background-primary)'' @ recolor_white z"
  "recolor_white (quoted ''white'' @ z) = quoted ''var(--background-primary)'' @ recolor_white z"
  by (simp_all add: recolor_white_def quoted_def js_def DQ_def)

lemma recolor_black_over_white:
  assumes "y = [] \<or> hd y \<notin> set (js ''#bw'')"
  shows "recolor_black (quoted ''#fff'' @ y) = quoted ''#fff'' @ recolor_black y"
    and "recolor_black (quoted ''white'' @ y) = quoted ''white'' @ recolor_black y"
  using assms by (cases y; simp add: recolor_black_def quoted_def js_def DQ_def)+

lemma recolor_white_over_current:
  assumes "z = [] \<or> hd z \<notin> set (js ''#w'')"
  shows "recolor_white (quoted ''currentColor'' @ z) = quoted ''currentColor'' @ recolor_white z"
  using assms by (cases z; simp add: recolor_white_def quoted_def js_def DQ_def)

lemma recolor_black_head:
  assumes "y = [] \<or> hd y \<notin> set (js ''#bw'')"
  shows "recolor_black y = [] \<or> hd (recolor_black y) \<notin> set (js ''#w'')"
proof (cases y)
  case Nil
  then show ?thesis by (simp add: recolor_black_def quoted_def)
next
  case (Cons c cs)
  with assms show ?thesis
    by (cases "find (\<lambda>p. prefix p (c # cs)) [quoted ''#000'', quoted ''black'']")
       (auto simp: recolor_black_def quoted_def js_def DQ_def split: if_splits)
qed

lemma append_DQ_unique:
  "DQ \<notin> set w \<Longrightarrow> w @ [DQ] = s1 @ DQ # us \<Longrightarrow> s1 = w \<and> us = []"
proof (induction w arbitrary: s1)
  case Nil
  then show ?case by (cases s1) auto
next
  case (Cons a w)
  then show ?case by (cases s1) auto
qed

lemma token_no_straddle:
  assumes "DQ \<notin> set w" and "\<not> suffix (DQ # w) x" and "suffix s x" and "s \<noteq> []"
    and "prefix (DQ # w @ [DQ]) (s @ DQ # r)"
  shows "prefix (DQ # w @ [DQ]) s"
proof -
  from assms(5) have "prefix (DQ # w @ [DQ]) s \<or>
      (\<exists>us. DQ # w @ [DQ] = s @ us \<and> prefix us (DQ # r))"
    by (simp only: prefix_append)
  then show ?thesis
  proof
    assume "prefix (DQ # w @ [DQ]) s"
    then show ?thesis .
  next
    assume "\<exists>us. DQ # w @ [DQ] = s @ us \<and> prefix us (DQ # r)"
    then obtain us where eq: "DQ # w @ [DQ] = s @ us" and us: "prefix us (DQ # r)" by blast
    show ?thesis
    proof (cases us)
      case Nil
      with eq show ?thesis by simp
    next
      case (Cons u us')
      with us have u: "u = DQ" by simp
      from assms(4) obtain a s1 where s: "s = a # s1" by (cases s) auto
      with eq Cons u have "w @ [DQ] = s1 @ DQ # us'" and "a = DQ" by simp_all
      with append_DQ_unique [OF assms(1)] have "s1 = w" by blast
      with s \<open>a = DQ\<close> assms(2,3) have False by simp
      then show ?thesis ..
    qed
  qed
qed

lemma rewritten_DQ_free:
  "rewritten toks new s s' \<Longrightarrow> DQ \<in> set new \<Longrightarrow> DQ \<notin> set s' \<Longrightarrow> s = s'"
  by (induction rule: rewritten.induct) auto

lemma suffix_DQ_append:
  assumes "DQ \<notin> set w" and "z \<noteq> []" and "last z = DQ" and "suffix (DQ # w) (z @ s')"
  shows "suffix (DQ # w) s' \<or> w = s'"
proof -
  from assms(4) have "suffix (DQ # w) s' \<or> (\<exists>xs'. DQ # w = xs' @ s' \<and> suffix xs' z)"
    by (simp only: suffix_append)
  then show ?thesis
  proof
    assume "suffix (DQ # w) s'"
    then show ?thesis ..
  next
    assume "\<exists>xs'. DQ # w = xs' @ s' \<and> suffix xs' z"
    then obtain xs' where eq: "DQ # w = xs' @ s'" and suf: "suffix xs' z" by blast
    show ?thesis
    proof (cases xs')
      case Nil
      with eq show ?thesis by simp
    next
      case (Cons a xs'')
      with eq have w: "w = xs'' @ s'" by simp
      from suf Cons assms(3) have "last (a # xs'') = DQ"
        by (metis last_appendR list.distinct(1) suffix_def)
      with w assms(1) have "xs'' = []" by (cases xs'' rule: rev_cases) auto
      with w show ?thesis by simp
    qed
  qed
qed

lemma rewritten_suffix:
  assumes "rewritten toks new x x'" and "\<forall>t\<in>toks. t \<noteq> [] \<and> last t = DQ"
    and "new \<noteq> []" and "last new = DQ" and "DQ \<notin> set w" and "suffix (DQ # w) x'"
  shows "suffix (DQ # w) x"
  using assms
proof (induction rule: rewritten.induct)
  case rewritten_Nil
  then show ?case by simp
next
  case (rewritten_copy s s' c)
  from rewritten_copy.prems(2,3) have dq: "DQ \<in> set new"
    by (metis last_in_set)
  from rewritten_copy.prems(5) have "DQ # w = c # s' \<or> suffix (DQ # w) s'"
    by (simp add: suffix_Cons)
  then show ?case
  proof
    assume eq: "DQ # w = c # s'"
    with rewritten_copy.prems(4) have "DQ \<notin> set s'" by auto
    with rewritten_copy.hyps dq have "s = s'" by (rule rewritten_DQ_free)
    with eq show ?thesis by simp
  next
    assume "suffix (DQ # w) s'"
    with rewritten_copy have "suffix (DQ # w) s" by simp
    then show ?thesis by (rule suffix_ConsI)
  qed
next
  case (rewritten_token t s s')
  from rewritten_token.prems(2,3) have dq: "DQ \<in> set new"
    by (metis last_in_set)
  from suffix_DQ_append [OF rewritten_token.prems(4,2,3,5)]
  show ?case
  proof
    assume "suffix (DQ # w) s'"
    with rewritten_token have "suffix (DQ # w) s" by simp
    then show ?thesis by (rule suffix_appendI)
  next
    assume eq: "w = s'"
    with rewritten_token.prems(4) have "DQ \<notin> set s'" by simp
    with rewritten_token.hyps(2) dq have "s = s'" by (rule rewritten_DQ_free)
    moreover from rewritten_token.hyps(1) rewritten_token.prems(1)
    obtain t' where "t = t' @ [DQ]"
      by (metis append_butlast_last_id)
    ultimately show ?thesis using eq by (simp add: suffix_def)
  qed
qed


lemma ends_inside_token_iff:
  "ends_inside_token x \<longleftrightarrow>
     suffix (DQ # js ''#000'') x \<or> suffix (DQ # js ''black'') x \<or>
     suffix (DQ # js ''#fff'') x \<or> suffix (DQ # js ''white'') x"
  by (simp add: ends_inside_token_def color_tokens_def quoted_def butlast_append)

lemma DQ_not_in_names:
  "DQ \<notin> set (js ''#000'')" "DQ \<notin> set (js ''black'')"
  "DQ \<notin> set (js ''#fff'')" "DQ \<notin> set (js ''white'')"
  by (simp_all add: js_def DQ_def)

lemma recolor_black_append:
  assumes "\<not> suffix (DQ # js ''#000'') x" and "\<not> suffix (DQ # js ''black'') x"
  shows "recolor_black (x @ DQ # r) = recolor_black x @ recolor_black (DQ # r)"
  unfolding recolor_black_def
proof (rule replaceAlts_append_no_straddle)
  show "[] \<notin> set [quoted ''#000'', quoted ''black'']" by (simp add: quoted_def)
  show "\<forall>s. s \<noteq> [] \<and> suffix s x \<longrightarrow>
      (\<forall>p\<in>set [quoted ''#000'', quoted ''black'']. prefix p (s @ DQ # r) \<longrightarrow> prefix p s)"
    using token_no_straddle [OF DQ_not_in_names(1) assms(1)]
      token_no_straddle [OF DQ_not_in_names(2) assms(2)]
    by (simp add: quoted_def)
qed

lemma recolor_white_append:
  assumes "\<not> suffix (DQ # js ''#fff'') x" and "\<not> suffix (DQ # js ''white'') x"
  shows "recolor_white (x @ DQ # r) = recolor_white x @ recolor_white (DQ # r)"
  unfolding recolor_white_def
proof (rule replaceAlts_append_no_straddle)
  show "[] \<notin> set [quoted ''#fff'', quoted ''white'']" by (simp add: quoted_def)
  show "\<forall>s. s \<noteq> [] \<and> suffix s x \<longrightarrow>
      (\<forall>p\<in>set [quoted ''#fff'', quoted ''white'']. prefix p (s @ DQ # r) \<longrightarrow> prefix p s)"
    using token_no_straddle [OF DQ_not_in_names(3) assms(1)]
      token_no_straddle [OF DQ_not_in_names(4) assms(2)]
    by (simp add: quoted_def)
qed

lemma recolor_black_keeps_ending:
  assumes "DQ \<notin> set w" and "\<not> suffix (DQ # w) x"
  shows "\<not> suffix (DQ # w) (recolor_black x)"
proof
  assume a: "suffix (DQ # w) (recolor_black x)"
  have "suffix (DQ # w) x"
    by (rule rewritten_suffix [OF color_stages(1) _ _ _ assms(1) a]) (simp_all add: quoted_def)
  with assms(2) show False ..
qed

lemma color_token_after:
  assumes "\<not> ends_inside_token x" and "y = [] \<or> hd y \<notin> set (js ''#bw'')"
  shows "colorSVGinDarkMode (x @ quoted ''#000'' @ y) =
           colorSVGinDarkMode x @ quoted ''currentColor'' @ colorSVGinDarkMode y"
    and "colorSVGinDarkMode (x @ quoted ''black'' @ y) =
           colorSVGinDarkMode x @ quoted ''currentColor'' @ colorSVGinDarkMode y"
    and "colorSVGinDarkMode (x @ quoted ''#fff'' @ y) =
           colorSVGinDarkMode x @ quoted ''var(--background-primary)'' @ colorSVGinDarkMode y"
    and "colorSVGinDarkMode (x @ quoted ''white'' @ y) =
           colorSVGinDarkMode x @ quoted ''var(--background-primary)'' @ colorSVGinDarkMode y"
proof -
  from assms(1) have b: "\<not> suffix (DQ # js ''#000'') x" "\<not> suffix (DQ # js ''black'') x"
    and w: "\<not> suffix (DQ # js ''#fff'') x" "\<not> suffix (DQ # js ''white'') x"
    by (simp_all add: ends_inside_token_iff)
  have b1: "recolor_black (x @ quoted t @ y) = recolor_black x @ recolor_black (quoted t @ y)" for t
    using recolor_black_append [OF b, of "js t @ DQ # y"] by (simp add: quoted_def)
  from w have w': "\<not> suffix (DQ # js ''#fff'') (recolor_black x)"
    "\<not> suffix (DQ # js ''white'') (recolor_black x)"
    by (simp_all add: recolor_black_keeps_ending DQ_not_in_names)
  have w1: "recolor_white (recolor_black x @ quoted t @ z) =
      recolor_white (recolor_black x) @ recolor_white (quoted t @ z)" for t z
    using recolor_white_append [OF w', of "js t @ DQ # z"] by (simp add: quoted_def)
  note h = recolor_black_head [OF assms(2)]
  show "colorSVGinDarkMode (x @ quoted ''#000'' @ y) =
      colorSVGinDarkMode x @ quoted ''currentColor'' @ colorSVGinDarkMode y"
    using h by (simp add: colorSVGinDarkMode_def b1 w1 recolor_black_token recolor_white_over_current)
  show "colorSVGinDarkMode (x @ quoted ''black'' @ y) =
      colorSVGinDarkMode x @ quoted ''currentColor'' @ colorSVGinDarkMode y"
    using h by (simp add: colorSVGinDarkMode_def b1 w1 recolor_black_token recolor_white_over_current)
  show "colorSVGinDarkMode (x @ quoted ''#fff'' @ y) =
      colorSVGinDarkMode x @ quoted ''var(--background-primary)'' @ colorSVGinDarkMode y"
    using assms(2)
    by (simp add: colorSVGinDarkMode_def b1 w1 recolor_black_over_white recolor_white_token)
  show "colorSVGinDarkMode (x @ quoted ''white'' @ y) =
      colorSVGinDarkMode x @ quoted ''var(--background-primary)'' @ colorSVGinDarkMode y"
    using assms(2)
    by (simp add: colorSVGinDarkMode_def b1 w1 recolor_black_over_white recolor_white_token)
qed

lemma begins_inside_token_iff:
  "begins_inside_token y \<longleftrightarrow>
     prefix (js ''#000'' @ [DQ]) y \<or> prefix (js ''black'' @ [DQ]) y \<or>
     prefix (js ''#fff'' @ [DQ]) y \<or> prefix (js ''white'' @ [DQ]) y"
  by (simp add: begins_inside_token_def color_tokens_def quoted_def)

lemma recolor_black_over_white_token:
  assumes "\<not> prefix (js ''#000'' @ [DQ]) y" and "\<not> prefix (js ''black'' @ [DQ]) y"
  shows "recolor_black (quoted ''#fff'' @ y) = quoted ''#fff'' @ recolor_black y"
    and "recolor_black (quoted ''white'' @ y) = quoted ''white'' @ recolor_black y"
  using assms by (simp_all add: recolor_black_def quoted_def js_def DQ_def)

lemma recolor_white_over_current_token:
  assumes "\<not> prefix (js ''#fff'' @ [DQ]) z" and "\<not> prefix (js ''white'' @ [DQ]) z"
  shows "recolor_white (quoted ''currentColor'' @ z) = quoted ''currentColor'' @ recolor_white z"
  using assms by (simp add: recolor_white_def quoted_def js_def DQ_def)

lemma rewritten_prefix:
  assumes "rewritten toks new y y'" and "\<forall>t\<in>toks. t \<noteq> [] \<and> hd t = DQ"
    and "new \<noteq> []" and "hd new = DQ" and "DQ \<notin> set w" and "prefix (w @ [DQ]) y'"
  shows "prefix (w @ [DQ]) y"
  using assms
proof (induction arbitrary: w rule: rewritten.induct)
  case rewritten_Nil
  then show ?case by simp
next
  case (rewritten_copy s s' c)
  show ?case
  proof (cases w)
    case Nil
    with rewritten_copy.prems(5) show ?thesis by simp
  next
    case (Cons a w')
    with rewritten_copy.prems(5) have a: "a = c" and p: "prefix (w' @ [DQ]) s'" by simp_all
    from rewritten_copy.prems(4) Cons have "DQ \<notin> set w'" by simp
    from rewritten_copy.IH [OF rewritten_copy.prems(1,2,3) this p] a Cons
    show ?thesis by simp
  qed
next
  case (rewritten_token t s s')
  from rewritten_token.prems(2,3) obtain new' where new: "new = DQ # new'"
    by (cases new) auto
  from rewritten_token.hyps(1) rewritten_token.prems(1) obtain t' where t: "t = DQ # t'"
    by (cases t) auto
  show ?case
  proof (cases w)
    case Nil
    with t show ?thesis by simp
  next
    case (Cons a w')
    with rewritten_token.prems(5) new have "a = DQ" by simp
    with Cons rewritten_token.prems(4) show ?thesis by simp
  qed
qed

lemma recolor_black_keeps_beginning:
  assumes "DQ \<notin> set w" and "\<not> prefix (w @ [DQ]) y"
  shows "\<not> prefix (w @ [DQ]) (recolor_black y)"
proof
  assume a: "prefix (w @ [DQ]) (recolor_black y)"
  have "prefix (w @ [DQ]) y"
    by (rule rewritten_prefix [OF color_stages(1) _ _ _ assms(1) a]) (simp_all add: quoted_def)
  with assms(2) show False ..
qed

lemma color_token_between:
  assumes "\<not> ends_inside_token x" and "\<not> begins_inside_token y"
  shows "colorSVGinDarkMode (x @ quoted ''#000'' @ y) =
           colorSVGinDarkMode x @ quoted ''currentColor'' @ colorSVGinDarkMode y"
    and "colorSVGinDarkMode (x @ quoted ''black'' @ y) =
           colorSVGinDarkMode x @ quoted ''currentColor'' @ colorSVGinDarkMode y"
    and "colorSVGinDarkMode (x @ quoted ''#fff'' @ y) =
           colorSVGinDarkMode x @ quoted ''var(--background-primary)'' @ colorSVGinDarkMode y"
    and "colorSVGinDarkMode (x @ quoted ''white'' @ y) =
           colorSVGinDarkMode x @ quoted ''var(--background-primary)'' @ colorSVGinDarkMode y"
proof -
  from assms(1) have b: "\<not> suffix (DQ # js ''#000'') x" "\<not> suffix (DQ # js ''black'') x"
    and w: "\<not> suffix (DQ # js ''#fff'') x" "\<not> suffix (DQ # js ''white'') x"
    by (simp_all add: ends_inside_token_iff)
  from assms(2) have yb: "\<not> prefix (js ''#000'' @ [DQ]) y" "\<not> prefix (js ''black'' @ [DQ]) y"
    and yw: "\<not> prefix (js ''#fff'' @ [DQ]) y" "\<not> prefix (js ''white'' @ [DQ]) y"
    by (simp_all add: begins_inside_token_iff)
  have b1: "recolor_black (x @ quoted t @ y) = recolor_black x @ recolor_black (quoted t @ y)" for t
    using recolor_black_append [OF b, of "js t @ DQ # y"] by (simp add: quoted_def)
  from w have w': "\<not> suffix (DQ # js ''#fff'') (recolor_black x)"
    "\<not> suffix (DQ # js ''white'') (recolor_black x)"
    by (simp_all add: recolor_black_keeps_ending DQ_not_in_names)
  have w1: "recolor_white (recolor_black x @ quoted t @ z) =
      recolor_white (recolor_black x) @ recolor_white (quoted t @ z)" for t z
    using recolor_white_append [OF w', of "js t @ DQ # z"] by (simp add: quoted_def)
  note h = recolor_black_keeps_beginning [OF DQ_not_in_names(3) yw(1)]
    recolor_black_keeps_beginning [OF DQ_not_in_names(4) yw(2)]
  note c = recolor_white_over_current_token [OF h]
  note o = recolor_black_over_white_token [OF yb]
  show "colorSVGinDarkMode (x @ quoted ''#000'' @ y) =
      colorSVGinDarkMode x @ quoted ''currentColor'' @ colorSVGinDarkMode y"
    by (simp add: colorSVGinDarkMode_def b1 w1 recolor_black_token c)
  show "colorSVGinDarkMode (x @ quoted ''black'' @ y) =
      colorSVGinDarkMode x @ quoted ''currentColor'' @ colorSVGinDarkMode y"
    by (simp add: colorSVGinDarkMode_def b1 w1 recolor_black_token c)
  show "colorSVGinDarkMode (x @ quoted ''#fff'' @ y) =
      colorSVGinDarkMode x @ quoted ''var(--background-primary)'' @ colorSVGinDarkMode y"
    by (simp add: colorSVGinDarkMode_def b1 w1 o recolor_white_token)
  show "colorSVGinDarkMode (x @ quoted ''white'' @ y) =
      colorSVGinDarkMode x @ quoted ''var(--background-primary)'' @ colorSVGinDarkMode y"
    by (simp add: colorSVGinDarkMode_def b1 w1 o recolor_white_token)
qed

subsection \<open>Identifiers in markup\<close>

lemma set_innerHTML_keeps:
  "tagName (set_innerHTML parse n m) = tagName n"
  "attributes (set_innerHTML parse n m) = attributes n"
  "getAttribute (set_innerHTML parse n m) name = getAttribute n name"
  by (cases n; simp add: set_innerHTML_def getAttribute_def)+

lemma isolateIds_loop_keeps:
  "tagName (isolateIds_loop parse uuidv4 k es n) = tagName n \<and>
   attributes (isolateIds_loop parse uuidv4 k es n) = attributes n \<and>
   getAttribute (isolateIds_loop parse uuidv4 k es n) name = getAttribute n name"
  by (induction es arbitrary: k n) (simp_all add: Let_def set_innerHTML_keeps)

lemma prefix_disjoint_append:
  assumes "set p \<inter> set u = {}" and "u \<noteq> []"
  shows "prefix p (s @ u @ r) \<longleftrightarrow> prefix p s"
proof
  assume "prefix p (s @ u @ r)"
  then have "prefix p s \<or> (\<exists>us. p = s @ us \<and> prefix us (u @ r))"
    by (simp only: prefix_append)
  then show "prefix p s"
  proof
    assume "prefix p s"
    then show ?thesis .
  next
    assume "\<exists>us. p = s @ us \<and> prefix us (u @ r)"
    then obtain us where p: "p = s @ us" and us: "prefix us (u @ r)" by blast
    show ?thesis
    proof (cases us)
      case Nil
      with p show ?thesis by simp
    next
      case (Cons a as)
      from assms(2) obtain b bs where u: "u = b # bs" by (cases u) auto
      with us Cons have "a = b" by simp
      with p Cons u assms(1) have False by auto
      then show ?thesis ..
    qed
  qed
next
  assume "prefix p s"
  then show "prefix p (s @ u @ r)" by (rule prefix_prefix)
qed

lemma replaceAlts_keeps_disjoint:
  assumes "old \<noteq> []" and "set old \<inter> set u = {}" and "u \<noteq> []"
  shows "replaceAlts [old] new (pre @ u @ post) =
     replaceAlts [old] new pre @ u @ replaceAlts [old] new post"
  using assms
proof (induction "[old]" new pre rule: replaceAlts.induct)
  case (1 new)
  from 1 have "hd old \<notin> set u" by (cases old) auto
  with 1 show ?case by (simp add: replaceAlts_skip)
next
  case (2 new c cs)
  have pre: "prefix old (c # cs @ u @ post) \<longleftrightarrow> prefix old (c # cs)"
    using prefix_disjoint_append [OF "2.prems"(2,3), of "c # cs" post] by simp
  show ?case
  proof (cases "prefix old (c # cs)")
    case True
    then have "length old - 1 \<le> length cs"
      using prefix_length_le by fastforce
    with True pre 2 show ?thesis by simp
  next
    case False
    with pre 2 show ?thesis by simp
  qed
qed

lemma prefix_replaceAlts_disjoint:
  assumes "old \<noteq> []" and "new \<noteq> []" and "set p \<inter> set new = {}"
  shows "prefix p (replaceAlts [old] new s) \<Longrightarrow> prefix p s"
  using assms
proof (induction "[old]" new s arbitrary: p rule: replaceAlts.induct)
  case (1 new)
  then show ?case by simp
next
  case (2 new c cs)
  show ?case
  proof (cases p)
    case Nil
    then show ?thesis by simp
  next
    case (Cons q qs)
    show ?thesis
    proof (cases "prefix old (c # cs)")
      case True
      with "2.prems" have "prefix p (new @ replaceAlts [old] new (drop (length old - 1) cs))"
        by simp
      with "2.prems" Cons have False by (cases new) auto
      then show ?thesis ..
    next
      case False
      with "2.prems" Cons have "q = c" and "prefix qs (replaceAlts [old] new cs)"
        by auto
      moreover from "2.prems" Cons have "set qs \<inter> set new = {}" by auto
      ultimately have "prefix qs cs"
        using "2.hyps"(1) [of qs] False "2.prems" by simp
      with \<open>q = c\<close> Cons show ?thesis by simp
    qed
  qed
qed

lemma includes_str_skip:
  "p \<noteq> [] \<Longrightarrow> hd p \<notin> set x \<Longrightarrow> includes_str (x @ r) p \<longleftrightarrow> includes_str r p"
  by (induction x) (auto simp: prefix_Cons neq_Nil_conv)

lemma replaceAlts_none_left:
  assumes "old \<noteq> []" and "new \<noteq> []" and "set old \<inter> set new = {}"
  shows "\<not> includes_str (replaceAlts [old] new s) old"
  using assms
proof (induction "[old]" new s rule: replaceAlts.induct)
  case (1 new)
  then show ?case by simp
next
  case (2 new c cs)
  show ?case
  proof (cases "prefix old (c # cs)")
    case True
    from "2.prems" have "hd old \<notin> set new" by (cases old) auto
    with True 2 show ?thesis by (simp add: includes_str_skip)
  next
    case False
    have "\<not> prefix old (replaceAlts [old] new (c # cs))"
      using prefix_replaceAlts_disjoint [OF "2.prems", of "c # cs"] False by blast
    with False 2 show ?thesis by simp
  qed
qed

lemma size_tree_order: "m \<in> set (tree_order n) \<Longrightarrow> size m \<le> size n"
proof (induction n arbitrary: m)
  case (Element tg as cs)
  show ?case
  proof (cases "m = Element tg as cs")
    case True
    then show ?thesis by simp
  next
    case False
    with Element.prems obtain c where c: "c \<in> set cs" and m: "m \<in> set (tree_order c)"
      by auto
    from Element.IH [OF c m] have "size m \<le> size c" .
    moreover from c have "size c \<le> size_list size cs"
      by (simp add: size_list_estimation')
    ultimately show ?thesis by simp
  qed
next
  case (Text t)
  then show ?case by simp
qed

lemma not_own_descendant: "svgEl \<notin> set (querySelectorAll_id svgEl)"
proof (cases svgEl)
  case (Element tg as cs)
  show ?thesis
  proof
    assume "svgEl \<in> set (querySelectorAll_id svgEl)"
    with Element obtain c where c: "c \<in> set cs" and m: "svgEl \<in> set (tree_order c)"
      by (auto simp: querySelectorAll_id_def)
    from size_tree_order [OF m] have "size svgEl \<le> size c" .
    moreover from c have "size c \<le> size_list size cs"
      by (simp add: size_list_estimation')
    ultimately show False using Element by simp
  qed
next
  case (Text t)
  then show ?thesis by (simp add: querySelectorAll_id_def)
qed

subsection \<open>Passes over the markup and over the tree\<close>

lemma replaceAlts_no_start:
  assumes "\<forall>s. s \<noteq> [] \<and> suffix s u \<longrightarrow> (\<forall>p\<in>set pats. \<not> prefix p (s @ r))"
  shows "replaceAlts pats new (u @ r) = u @ replaceAlts pats new r"
  using assms
proof (induction u)
  case Nil
  then show ?case by simp
next
  case (Cons c u)
  have "find (\<lambda>p. prefix p (c # u @ r)) pats = None"
    unfolding find_None_iff using Cons.prems
    by (metis append_Cons list.distinct(1) suffix_order.refl)
  moreover have "\<forall>s. s \<noteq> [] \<and> suffix s u \<longrightarrow> (\<forall>p\<in>set pats. \<not> prefix p (s @ r))"
    using Cons.prems by (meson suffix_Cons)
  then have "replaceAlts pats new (u @ r) = u @ replaceAlts pats new r" by (rule Cons.IH)
  ultimately show ?case by simp
qed

lemma suffix_as_drop: "suffix s x \<Longrightarrow> s = drop (length x - length s) x"
  by (auto simp: suffix_def)

lemma replaceAll_keeps_untouched:
  assumes old: "old \<noteq> []" and no: "\<not> overlaps old pre u post"
  shows "replaceAll (pre @ u @ post) old new =
     replaceAll pre old new @ u @ replaceAll post old new"
proof -
  have occ: "\<not> prefix old (drop i (pre @ u @ post))"
    if "i < length pre + length u" "length pre < i + length old" for i
    using no that by (auto simp: overlaps_def)
  have a: "\<forall>s. s \<noteq> [] \<and> suffix s pre \<longrightarrow>
      (\<forall>p\<in>set [old]. prefix p (s @ u @ post) \<longrightarrow> prefix p s)"
  proof (intro allI impI ballI)
    fix s p
    assume s: "s \<noteq> [] \<and> suffix s pre" and p: "p \<in> set [old]" and pre: "prefix p (s @ u @ post)"
    from p have [simp]: "p = old" by simp
    let ?i = "length pre - length s"
    from s have d: "s = drop ?i pre" by (simp add: suffix_as_drop)
    from s have le: "length s \<le> length pre" by (auto dest: suffix_length_le)
    from s le have i: "?i < length pre + length u" by (cases s) auto
    have dr: "drop ?i (pre @ u @ post) = s @ u @ post"
      using d le by simp
    show "prefix p s"
    proof (rule ccontr)
      assume "\<not> prefix p s"
      with pre have "length s < length old"
        by (metis \<open>p = old\<close> not_le_imp_less prefix_length_prefix prefixI append.assoc prefix_def)
      with le have "length pre < ?i + length old" by simp
      from occ [OF i this] pre dr show False by simp
    qed
  qed
  have b: "\<forall>s. s \<noteq> [] \<and> suffix s u \<longrightarrow> (\<forall>p\<in>set [old]. \<not> prefix p (s @ post))"
  proof (intro allI impI ballI)
    fix s p
    assume s: "s \<noteq> [] \<and> suffix s u" and p: "p \<in> set [old]"
    from p have [simp]: "p = old" by simp
    let ?i = "length pre + (length u - length s)"
    from s have d: "s = drop (length u - length s) u" by (simp add: suffix_as_drop)
    from s have le: "length s \<le> length u" by (auto dest: suffix_length_le)
    from s le have i: "?i < length pre + length u" by (cases s) auto
    from old have "length pre < ?i + length old" by (cases old) auto
    from occ [OF i this] have "\<not> prefix old (drop ?i (pre @ u @ post))" .
    moreover have "drop ?i (pre @ u @ post) = s @ post"
      using d le by simp
    ultimately show "\<not> prefix p (s @ post)" by simp
  qed
  have "replaceAlts [old] new (pre @ u @ post) =
      replaceAlts [old] new pre @ replaceAlts [old] new (u @ post)"
    using old a by (intro replaceAlts_append_no_straddle) simp_all
  also have "replaceAlts [old] new (u @ post) = u @ replaceAlts [old] new post"
    using b by (rule replaceAlts_no_start)
  finally show ?thesis by (simp add: replaceAll_def)
qed

lemma isolateIds_loop_append:
  "isolateIds_loop parse uuidv4 k (xs @ ys) svgEl =
     isolateIds_loop parse uuidv4 (k + length xs) ys (isolateIds_loop parse uuidv4 k xs svgEl)"
  by (induction xs arbitrary: k svgEl) (simp_all add: Let_def)

lemma isolateIds_loop_snoc:
  "isolateIds_loop parse uuidv4 k (xs @ [element]) svgEl =
     set_innerHTML parse (isolateIds_loop parse uuidv4 k xs svgEl)
       (rewritten_markup (isolateIds_loop parse uuidv4 k xs svgEl) (element_id element)
          (uuidv4 (k + length xs)))"
  by (simp add: isolateIds_loop_append Let_def)

lemma escapeString_plain:
  "plain_text t \<Longrightarrow> escapeString False t = t"
  "plain_value v \<Longrightarrow> escapeString True v = v"
  by (induction t, auto simp: plain_text_def)
     (induction v, auto simp: plain_value_def plain_text_def)

lemma set_replaceAlts: "set (replaceAlts pats new s) \<subseteq> set s \<union> set new"
proof (induction pats new s rule: replaceAlts.induct)
  case (1 pats new)
  then show ?case by auto
next
  case (2 pats new c cs)
  show ?case
  proof (cases "find (\<lambda>p. prefix p (c # cs)) pats")
    case None
    with 2 show ?thesis by auto
  next
    case (Some p)
    show ?thesis
    proof (cases "p = []")
      case True
      with Some 2 show ?thesis by auto
    next
      case False
      from "2.IH"(3) [OF Some False] have "set (replaceAlts pats new (drop (length p - 1) cs))
        \<subseteq> set cs \<union> set new" using set_drop_subset [of "length p - 1" cs] by blast
      with Some False show ?thesis by auto
    qed
  qed
qed

lemma plain_replaceAll:
  "plain_text new \<Longrightarrow> plain_text t \<Longrightarrow> plain_text (replaceAll t old new)"
  "plain_value new \<Longrightarrow> plain_value v \<Longrightarrow> plain_value (replaceAll v old new)"
  using set_replaceAlts [of "[old]" new t] set_replaceAlts [of "[old]" new v]
  by (auto simp: plain_text_def plain_value_def replaceAll_def)

lemma replaceAll_Cons_delim:
  "old \<noteq> [] \<Longrightarrow> d \<notin> set old \<Longrightarrow> replaceAll (d # b) old new = d # replaceAll b old new"
  using replaceAlts_skip [of "[old]" "[d]" new b] by (cases old) (auto simp: replaceAll_def)

lemma replaceAll_append_delim:
  "old \<noteq> [] \<Longrightarrow> d \<notin> set old \<Longrightarrow>
     replaceAll (a @ d # b) old new = replaceAll a old new @ d # replaceAll b old new"
  using replaceAlts_keeps_disjoint [of old "[d]" new a b] by (simp add: replaceAll_def)

lemma replaceAll_absent: "\<not> includes_str s old \<Longrightarrow> replaceAll s old new = s"
  by (simp add: replaceAll_def replaceAlts_absent)

lemma replaceAll_Nil: "old \<noteq> [] \<Longrightarrow> replaceAll [] old new = []"
  by (simp add: replaceAll_def)


lemma replaceAll_append_absent:
  assumes "old \<noteq> []" and "\<not> includes_str a old" and "b = [] \<or> hd b \<notin> set old"
  shows "replaceAll (a @ b) old new = a @ replaceAll b old new"
proof (cases b)
  case Nil
  with assms show ?thesis by (simp add: replaceAll_Nil replaceAll_absent)
next
  case (Cons d b')
  with assms(3) have d: "d \<notin> set old" by simp
  have "replaceAll (a @ d # b') old new = replaceAll a old new @ d # replaceAll b' old new"
    by (rule replaceAll_append_delim [OF assms(1) d])
  moreover have "replaceAll (d # b') old new = d # replaceAll b' old new"
    by (rule replaceAll_Cons_delim [OF assms(1) d])
  ultimately show ?thesis using assms(2) Cons by (simp add: replaceAll_absent)
qed

lemma identifier_likeD:
  assumes "identifier_like old"
  shows "old \<noteq> []" "0x003C \<notin> set old" "0x003E \<notin> set old" "0x002F \<notin> set old"
    "0x003D \<notin> set old" "0x0020 \<notin> set old" "DQ \<notin> set old"
  using assms by (auto simp: identifier_like_def js_def)

lemma attributes_replaceAll:
  assumes il: "identifier_like old" and pn: "plain_value new"
    and as: "\<forall>(name, v)\<in>set as. \<not> includes_str name old \<and> plain_value v"
  shows "replaceAll
      (concat (map (\<lambda>(name, v). js '' '' @ name @ js ''='' @ [DQ] @ escapeString True v @ [DQ]) as) @
       0x003E # rest) old new =
     concat (map (\<lambda>(name, v). js '' '' @ name @ js ''='' @ [DQ] @ escapeString True v @ [DQ])
       (map (\<lambda>(name, v). (name, replaceAll v old new)) as)) @
     0x003E # replaceAll rest old new"
  using as
proof (induction as)
  case Nil
  then show ?case
    using identifier_likeD [OF il] by (simp add: replaceAll_Cons_delim)
next
  case (Cons a as)
  obtain name v where a: "a = (name, v)" by (cases a)
  with Cons.prems have name: "\<not> includes_str name old" and v: "plain_value v"
    and rest: "\<forall>(name, v)\<in>set as. \<not> includes_str name old \<and> plain_value v"
    by auto
  note ih = Cons.IH [OF rest]
  note d = identifier_likeD [OF il]
  let ?tail = "concat (map (\<lambda>(name, v). js '' '' @ name @ js ''='' @ [DQ] @ escapeString True v @ [DQ]) as) @
       0x003E # rest"
  have "replaceAll (0x0020 # name @ 0x003D # DQ # v @ DQ # ?tail) old new =
      0x0020 # name @ 0x003D # DQ # replaceAll v old new @ DQ # replaceAll ?tail old new"
  proof -
    have "replaceAll (0x0020 # name @ 0x003D # DQ # v @ DQ # ?tail) old new =
        0x0020 # replaceAll (name @ 0x003D # DQ # v @ DQ # ?tail) old new"
      by (rule replaceAll_Cons_delim [OF d(1) d(6)])
    moreover have "replaceAll (name @ 0x003D # DQ # v @ DQ # ?tail) old new =
        name @ replaceAll (0x003D # DQ # v @ DQ # ?tail) old new"
      using d by (intro replaceAll_append_absent name) simp_all
    moreover have "replaceAll (0x003D # DQ # v @ DQ # ?tail) old new =
        0x003D # replaceAll (DQ # v @ DQ # ?tail) old new"
      by (rule replaceAll_Cons_delim [OF d(1) d(5)])
    moreover have "replaceAll (DQ # v @ DQ # ?tail) old new =
        DQ # replaceAll (v @ DQ # ?tail) old new"
      by (rule replaceAll_Cons_delim [OF d(1) d(7)])
    moreover have "replaceAll (v @ DQ # ?tail) old new =
        replaceAll v old new @ DQ # replaceAll ?tail old new"
      by (rule replaceAll_append_delim [OF d(1) d(7)])
    ultimately show ?thesis by simp
  qed
  with ih v pn show ?case
    by (simp add: a js_def escapeString_plain plain_replaceAll)
qed

lemma serialize_starts:
  "\<not> isText m \<Longrightarrow> serialize m @ r \<noteq> [] \<and> hd (serialize m @ r) = 0x003C"
  by (cases m) (simp_all add: isText_def js_def)

lemma serialize_replaceAll:
  assumes il: "identifier_like old" and pn: "plain_value new"
  shows "suits old n \<Longrightarrow> (isText n \<longrightarrow> r = [] \<or> hd r \<notin> set old) \<Longrightarrow>
     replaceAll (serialize n @ r) old new =
       serialize (map_values (\<lambda>v. replaceAll v old new) n) @ replaceAll r old new"
proof (induction n arbitrary: r)
  case (Text t)
  note d = identifier_likeD [OF il]
  from Text.prems have pt: "plain_text t" and r: "r = [] \<or> hd r \<notin> set old"
    by (simp_all add: isText_def)
  from pn have pn': "plain_text new" by (simp add: plain_value_def)
  from r have "replaceAll (t @ r) old new = replaceAll t old new @ replaceAll r old new"
  proof
    assume "r = []"
    with d show ?thesis by (simp add: replaceAll_Nil)
  next
    assume h: "hd r \<notin> set old"
    show ?thesis
    proof (cases r)
      case Nil
      with d show ?thesis by (simp add: replaceAll_Nil)
    next
      case (Cons c r')
      with h d show ?thesis
        by (simp add: replaceAll_append_delim replaceAll_Cons_delim)
    qed
  qed
  with pt pn' show ?case
    by (simp add: escapeString_plain plain_replaceAll)
next
  case (Element tg as cs)
  note d = identifier_likeD [OF il]
  from Element.prems have tg: "\<not> includes_str tg old"
    and as: "\<forall>(name, v)\<in>set as. \<not> includes_str name old \<and> plain_value v"
    and cs: "\<forall>c\<in>set cs. suits old c" and adj: "no_adjacent_text cs"
    by simp_all
  have forest: "replaceAll (concat (map serialize F) @ 0x003C # q) old new =
      concat (map serialize (map (map_values (\<lambda>v. replaceAll v old new)) F)) @
      0x003C # replaceAll q old new"
    if "no_adjacent_text F" "set F \<subseteq> set cs" for F q
    using that
  proof (induction F)
    case Nil
    with d show ?case by (simp add: replaceAll_Cons_delim)
  next
    case (Cons n F)
    from Cons.prems have n: "n \<in> set cs" and sub: "set F \<subseteq> set cs"
      and adj': "no_adjacent_text F"
      by (cases F; simp)+
    let ?k = "concat (map serialize F) @ 0x003C # q"
    have cont: "isText n \<longrightarrow> ?k = [] \<or> hd ?k \<notin> set old"
    proof (cases F)
      case Nil
      with d show ?thesis by simp
    next
      case (Cons m F')
      show ?thesis
      proof
        assume "isText n"
        with Cons.prems(1) Cons have "\<not> isText m" by simp
        from serialize_starts [OF this] Cons d show "?k = [] \<or> hd ?k \<notin> set old"
          by simp
      qed
    qed
    from n cs have "suits old n" by simp
    from Element.IH [OF n this cont] Cons.IH [OF adj' sub]
    show ?case by simp
  qed
  let ?attr = "\<lambda>(name, v). js '' '' @ name @ js ''='' @ [DQ] @ escapeString True v @ [DQ]"
  have "replaceAll (serialize (Element tg as cs) @ r) old new =
      replaceAll (0x003C # tg @ concat (map ?attr as) @ 0x003E #
        concat (map serialize cs) @ 0x003C # 0x002F # tg @ 0x003E # r) old new"
    by (simp add: js_def)
  also have "\<dots> = 0x003C # replaceAll (tg @ concat (map ?attr as) @ 0x003E #
        concat (map serialize cs) @ 0x003C # 0x002F # tg @ 0x003E # r) old new"
    using d by (simp add: replaceAll_Cons_delim)
  also have "replaceAll (tg @ concat (map ?attr as) @ 0x003E #
        concat (map serialize cs) @ 0x003C # 0x002F # tg @ 0x003E # r) old new =
      tg @ replaceAll (concat (map ?attr as) @ 0x003E #
        concat (map serialize cs) @ 0x003C # 0x002F # tg @ 0x003E # r) old new"
  proof (rule replaceAll_append_absent [OF d(1) tg])
    show "concat (map ?attr as) @ 0x003E #
        concat (map serialize cs) @ 0x003C # 0x002F # tg @ 0x003E # r = [] \<or>
      hd (concat (map ?attr as) @ 0x003E #
        concat (map serialize cs) @ 0x003C # 0x002F # tg @ 0x003E # r) \<notin> set old"
    proof (cases as)
      case Nil
      with d show ?thesis by simp
    next
      case (Cons a as')
      obtain name v where "a = (name, v)" by (cases a)
      with Cons d show ?thesis by (simp add: js_def)
    qed
  qed
  also have "replaceAll (concat (map ?attr as) @ 0x003E #
        concat (map serialize cs) @ 0x003C # 0x002F # tg @ 0x003E # r) old new =
      concat (map ?attr (map (\<lambda>(name, v). (name, replaceAll v old new)) as)) @ 0x003E #
      replaceAll (concat (map serialize cs) @ 0x003C # 0x002F # tg @ 0x003E # r) old new"
    by (rule attributes_replaceAll [OF il pn as])
  also have "replaceAll (concat (map serialize cs) @ 0x003C # 0x002F # tg @ 0x003E # r) old new =
      concat (map serialize (map (map_values (\<lambda>v. replaceAll v old new)) cs)) @
      0x003C # replaceAll (0x002F # tg @ 0x003E # r) old new"
    by (rule forest [OF adj subset_refl])
  also have "replaceAll (0x002F # tg @ 0x003E # r) old new =
      0x002F # tg @ 0x003E # replaceAll r old new"
  proof -
    have "replaceAll (0x002F # tg @ 0x003E # r) old new =
        0x002F # replaceAll (tg @ 0x003E # r) old new"
      by (rule replaceAll_Cons_delim [OF d(1) d(4)])
    moreover have "replaceAll (tg @ 0x003E # r) old new = tg @ replaceAll (0x003E # r) old new"
      using d by (intro replaceAll_append_absent tg) simp_all
    moreover have "replaceAll (0x003E # r) old new = 0x003E # replaceAll r old new"
      by (rule replaceAll_Cons_delim [OF d(1) d(3)])
    ultimately show ?thesis by simp
  qed
  finally show ?case by (simp add: js_def)
qed

lemma forest_replaceAll:
  assumes il: "identifier_like old" and pn: "plain_value new"
    and cs: "\<forall>c\<in>set cs. suits old c" and adj: "no_adjacent_text cs"
  shows "replaceAll (concat (map serialize cs)) old new =
     concat (map serialize (map (map_values (\<lambda>v. replaceAll v old new)) cs))"
proof -
  note d = identifier_likeD [OF il]
  from d(1) cs adj have "suits old (Element [] [] cs)" by (cases old) simp_all
  from serialize_replaceAll [OF il pn this, of "[]"]
  have "replaceAll (0x003C # 0x003E # concat (map serialize cs) @ 0x003C # 0x002F # [0x003E]) old new =
      0x003C # 0x003E # concat (map serialize (map (map_values (\<lambda>v. replaceAll v old new)) cs)) @
      0x003C # 0x002F # [0x003E]"
    using d(1) by (simp add: isText_def js_def replaceAll_Nil)
  moreover have "replaceAll (0x003C # 0x003E # concat (map serialize cs) @ 0x003C # 0x002F # [0x003E]) old new =
      0x003C # replaceAll (0x003E # concat (map serialize cs) @ 0x003C # 0x002F # [0x003E]) old new"
    by (rule replaceAll_Cons_delim [OF d(1) d(2)])
  moreover have "replaceAll (0x003E # concat (map serialize cs) @ 0x003C # 0x002F # [0x003E]) old new =
      0x003E # replaceAll (concat (map serialize cs) @ 0x003C # 0x002F # [0x003E]) old new"
    by (rule replaceAll_Cons_delim [OF d(1) d(3)])
  moreover have "replaceAll (concat (map serialize cs) @ 0x003C # 0x002F # [0x003E]) old new =
      replaceAll (concat (map serialize cs)) old new @
      0x003C # replaceAll (0x002F # [0x003E]) old new"
    by (rule replaceAll_append_delim [OF d(1) d(2)])
  moreover have "replaceAll (0x002F # [0x003E]) old new = 0x002F # [0x003E]"
    using d by (simp add: replaceAll_Cons_delim replaceAll_Nil)
  ultimately show ?thesis by simp
qed

lemma isText_map_values: "isText (map_values f n) = isText n"
  by (cases n) (simp_all add: isText_def)

lemma no_adjacent_text_map_values:
  "no_adjacent_text (map (map_values f) cs) = no_adjacent_text cs"
  by (induction cs rule: no_adjacent_text.induct) (simp_all add: isText_map_values)

lemma suits_map_values:
  assumes "\<And>t. plain_text t \<Longrightarrow> plain_text (f t)" and "\<And>v. plain_value v \<Longrightarrow> plain_value (f v)"
  shows "suits old n \<Longrightarrow> suits old (map_values f n)"
  by (induction n) (auto simp: assms no_adjacent_text_map_values)

lemma suits_replaceAll:
  assumes pn: "plain_value new" and s: "suits old n"
  shows "suits old (map_values (\<lambda>v. replaceAll v o' new) n)"
proof (rule suits_map_values [OF _ _ s])
  from pn have pt: "plain_text new" by (simp add: plain_value_def)
  show "plain_text (replaceAll t o' new)" if "plain_text t" for t
    using pt that by (rule plain_replaceAll(1))
  show "plain_value (replaceAll v o' new)" if "plain_value v" for v
    using pn that by (rule plain_replaceAll(2))
qed

lemma map_values_comp: "map_values g (map_values f n) = map_values (\<lambda>v. g (f v)) n"
  by (induction n) auto

lemma isolated_value_simps:
  "isolated_value [] v = v"
  "isolated_value ((old, new) # pairs) v = isolated_value pairs (replaceAll v old new)"
  by (simp_all add: isolated_value_def)

lemma isolated_value_funs:
  "isolated_value [] = (\<lambda>v. v)"
  "isolated_value ((old, new) # pairs) = (\<lambda>v. isolated_value pairs (replaceAll v old new))"
  by (simp_all add: isolated_value_def fun_eq_iff)

lemma map_values_id: "map_values (\<lambda>v. v) n = n"
  by (induction n) (auto simp: map_idI)

lemma isolateIds_loop_trees:
  assumes "\<forall>old\<in>set (map element_id es). identifier_like old \<and> (\<forall>c\<in>set F. suits old c)"
    and "no_adjacent_text F"
    and "\<forall>u\<in>set us. plain_value u"
    and "us = map uuidv4 [k..<k + length es]"
    and "\<forall>m\<in>set [1..<Suc (length es)]. \<forall>ctx.
          parse ctx (concat (map serialize
            (map (map_values (isolated_value (take m (zip (map element_id es) us)))) F))) =
          map (map_values (isolated_value (take m (zip (map element_id es) us)))) F"
  shows "isolateIds_loop parse uuidv4 k es (Element tg as F) =
     Element tg as (map (map_values (isolated_value (zip (map element_id es) us))) F)"
  using assms
proof (induction es arbitrary: k F us)
  case Nil
  then show ?case by (simp add: isolated_value_funs map_values_id map_idI)
next
  case (Cons e es)
  let ?old = "element_id e"
  let ?new = "uuidv4 k"
  let ?F1 = "map (map_values (\<lambda>v. replaceAll v ?old ?new)) F"
  have "k < k + length (e # es)" by simp
  then have "[k..<k + length (e # es)] = k # [Suc k..<k + length (e # es)]"
    by (rule upt_conv_Cons)
  moreover have "k + length (e # es) = Suc k + length es" by simp
  ultimately have "[k..<k + length (e # es)] = k # [Suc k..<Suc k + length es]"
    by (simp only:)
  with Cons.prems(4) have us: "us = ?new # map uuidv4 [Suc k..<Suc k + length es]"
    by (simp only: list.map)
  let ?us' = "map uuidv4 [Suc k..<Suc k + length es]"
  from Cons.prems(1) have il: "identifier_like ?old" and sF: "\<forall>c\<in>set F. suits ?old c"
    by simp_all
  from Cons.prems(3) us have pn: "plain_value ?new" and pus: "\<forall>u\<in>set ?us'. plain_value u"
    by simp_all
  have markup: "rewritten_markup (Element tg as F) ?old ?new = concat (map serialize ?F1)"
    using forest_replaceAll [OF il pn sF Cons.prems(2)]
    by (simp add: rewritten_markup_def innerHTML_def)
  have "(1::nat) \<in> set [1..<Suc (length (e # es))]" unfolding set_upt by simp
  with Cons.prems(5) have "\<forall>ctx. parse ctx (concat (map serialize
      (map (map_values (isolated_value (take 1 (zip (map element_id (e # es)) us)))) F))) =
      map (map_values (isolated_value (take 1 (zip (map element_id (e # es)) us)))) F"
    by blast
  then have read1: "parse ctx (concat (map serialize ?F1)) = ?F1" for ctx
    by (simp add: us isolated_value_funs)
  have step: "set_innerHTML parse (Element tg as F) (rewritten_markup (Element tg as F) ?old ?new) =
      Element tg as ?F1"
    by (simp only: set_innerHTML_def node.case markup read1)
  have a1: "\<forall>old\<in>set (map element_id es). identifier_like old \<and> (\<forall>c\<in>set ?F1. suits old c)"
    using Cons.prems(1) pn by (auto simp: suits_replaceAll)
  have a2: "no_adjacent_text ?F1"
    using Cons.prems(2) by (simp add: no_adjacent_text_map_values)
  have a5: "\<forall>m\<in>set [1..<Suc (length es)]. \<forall>ctx.
      parse ctx (concat (map serialize
        (map (map_values (isolated_value (take m (zip (map element_id es) ?us')))) ?F1))) =
      map (map_values (isolated_value (take m (zip (map element_id es) ?us')))) ?F1"
  proof (intro ballI allI)
    fix m ctx
    assume m: "m \<in> set [1..<Suc (length es)]"
    then have "Suc m \<in> set [1..<Suc (length (e # es))]" unfolding set_upt by simp
    with Cons.prems(5) have "parse ctx (concat (map serialize
        (map (map_values (isolated_value (take (Suc m) (zip (map element_id (e # es)) us)))) F))) =
        map (map_values (isolated_value (take (Suc m) (zip (map element_id (e # es)) us)))) F"
      by blast
    then show "parse ctx (concat (map serialize
        (map (map_values (isolated_value (take m (zip (map element_id es) ?us')))) ?F1))) =
      map (map_values (isolated_value (take m (zip (map element_id es) ?us')))) ?F1"
      by (simp add: us isolated_value_funs map_values_comp comp_def)
  qed
  have "isolateIds_loop parse uuidv4 (Suc k) es (Element tg as ?F1) =
      Element tg as (map (map_values (isolated_value (zip (map element_id es) ?us'))) ?F1)"
    by (rule Cons.IH [OF a1 a2 pus refl a5])
  then show ?case
    by (simp add: Let_def step us isolated_value_funs map_values_comp comp_def)
qed


lemma tree_order_map_values: "tree_order (map_values f n) = map (map_values f) (tree_order n)"
  by (induction n) (auto simp: map_concat comp_def intro: arg_cong [where f = concat])

lemma getAttribute_map_values:
  "getAttribute (map_values f n) name = map_option f (getAttribute n name)"
proof (cases n)
  case (Element tg as cs)
  have "map_of (map (\<lambda>(name, v). (name, f v)) as) name = map_option f (map_of as name)"
    by (induction as) auto
  with Element show ?thesis by (simp add: getAttribute_def)
next
  case (Text t)
  then show ?thesis by (simp add: getAttribute_def)
qed

lemma querySelectorAll_id_map_values:
  "querySelectorAll_id (Element tg as (map (map_values f) cs)) =
     map (map_values f) (querySelectorAll_id (Element tg as cs))"
proof -
  have "concat (map tree_order (map (map_values f) cs)) =
      map (map_values f) (concat (map tree_order cs))"
    by (simp add: map_concat comp_def tree_order_map_values)
  then show ?thesis
    by (simp add: querySelectorAll_id_def filter_map comp_def getAttribute_map_values)
qed

lemma element_id_map_values:
  "getAttribute e (js ''id'') \<noteq> None \<Longrightarrow> element_id (map_values f e) = f (element_id e)"
  by (auto simp: element_id_def getAttribute_map_values)

lemma element_ids_map_values:
  "map element_id (querySelectorAll_id (Element tg as (map (map_values f) cs))) =
     map f (map element_id (querySelectorAll_id (Element tg as cs)))"
proof -
  have "\<forall>e\<in>set (querySelectorAll_id (Element tg as cs)). getAttribute e (js ''id'') \<noteq> None"
    by (simp add: querySelectorAll_id_def)
  then show ?thesis
    by (simp add: querySelectorAll_id_map_values element_id_map_values)
qed

lemma isolated_value_append:
  "isolated_value (ps @ qs) v = isolated_value qs (isolated_value ps v)"
  by (simp add: isolated_value_def)

lemma isolated_value_absent:
  "\<forall>p\<in>set ps. \<not> includes_str v (fst p) \<Longrightarrow> isolated_value ps v = v"
  by (induction ps) (auto simp: isolated_value_simps replaceAll_absent)

lemma replaceAll_self: "old \<noteq> [] \<Longrightarrow> replaceAll old old new = new"
  by (cases old) (simp_all add: replaceAll_def)

lemma isolated_value_Cons_delim:
  "\<forall>p\<in>set ps. fst p \<noteq> [] \<and> d \<notin> set (fst p) \<Longrightarrow>
     isolated_value ps (d # v) = d # isolated_value ps v"
  by (induction ps arbitrary: v) (auto simp: isolated_value_simps replaceAll_Cons_delim)

lemma isolated_value_own:
  assumes len: "length us = length olds" and k: "k < length olds"
    and ne: "olds ! k \<noteq> []"
    and before: "\<forall>j\<in>set [0..<k]. \<not> includes_str (olds ! k) (olds ! j)"
    and after: "\<forall>j\<in>set [Suc k..<length olds]. \<not> includes_str (us ! k) (olds ! j)"
  shows "isolated_value (zip olds us) (olds ! k) = us ! k"
proof -
  let ?ps = "zip olds us"
  from len k have kz: "k < length ?ps" by simp
  then have split: "?ps = take k ?ps @ (olds ! k, us ! k) # drop (Suc k) ?ps"
    using id_take_nth_drop [of k ?ps] by simp
  have a: "\<forall>p\<in>set (take k ?ps). \<not> includes_str (olds ! k) (fst p)"
  proof
    fix p assume "p \<in> set (take k ?ps)"
    then obtain j where "j < k" "j < length ?ps" "p = ?ps ! j"
      by (auto simp: in_set_conv_nth)
    with before len show "\<not> includes_str (olds ! k) (fst p)" by simp
  qed
  have b: "\<forall>p\<in>set (drop (Suc k) ?ps). \<not> includes_str (us ! k) (fst p)"
  proof
    fix p assume "p \<in> set (drop (Suc k) ?ps)"
    then obtain i where i: "i < length (drop (Suc k) ?ps)" and p: "p = drop (Suc k) ?ps ! i"
      by (auto simp: in_set_conv_nth)
    from i len have lt: "Suc k + i < length olds" by simp
    with p len have "fst p = olds ! (Suc k + i)" by simp
    moreover from lt have "Suc k + i \<in> set [Suc k..<length olds]" by simp
    ultimately show "\<not> includes_str (us ! k) (fst p)" using after by simp
  qed
  have "isolated_value ?ps (olds ! k) =
      isolated_value (drop (Suc k) ?ps)
        (isolated_value [(olds ! k, us ! k)] (isolated_value (take k ?ps) (olds ! k)))"
    by (subst split) (simp add: isolated_value_append isolated_value_simps)
  with a b ne show ?thesis
    by (simp add: isolated_value_absent isolated_value_simps replaceAll_self)
qed

subsection \<open>Finding and removing the script\<close>

lemma getElementById_in_None_append:
  "getElementById_in ns i = None \<Longrightarrow> map_of as (js ''id'') = Some i
     \<Longrightarrow> getElementById_in (ns @ [Element tg as cs]) i = Some (Element tg as cs)"
  by (induction ns i rule: getElementById_in.induct) (auto split: if_splits option.splits)

lemma remove_element_None_append:
  "getElementById_in ns i = None \<Longrightarrow> map_of as (js ''id'') = Some i
     \<Longrightarrow> remove_element (ns @ [Element tg as cs]) i = ns"
  by (induction ns i rule: getElementById_in.induct)
     (auto split: if_splits option.splits simp: getElementById_in_None_append)

lemma appendChild_body_found:
  assumes "appendChild_body ns s = Some ns'" and "getElementById_in ns i = None"
    and "s = Element tg as cs" and "map_of as (js ''id'') = Some i"
  shows "getElementById_in ns' i = Some s \<and> remove_element ns' i = ns"
  using assms
proof (induction ns s arbitrary: ns' rule: appendChild_body.induct)
  case (1 s)
  then show ?case by simp
next
  case (2 t ns s)
  then show ?case by auto
next
  case (3 tg' as' cs' ns s)
  show ?case
  proof (cases "tg' = js ''body'' \<or> tg' = js ''frameset''")
    case True
    with "3.prems" have ns': "ns' = Element tg' as' (cs' @ [s]) # ns" by auto
    from "3.prems" have own: "map_of as' (js ''id'') \<noteq> Some i"
      and inner: "getElementById_in cs' i = None"
      by (auto split: if_splits option.splits)
    from inner "3.prems" have "getElementById_in (cs' @ [s]) i = Some s"
      by (simp add: getElementById_in_None_append)
    moreover from inner "3.prems" have "remove_element (cs' @ [s]) i = cs'"
      by (simp add: remove_element_None_append)
    ultimately show ?thesis using own by (simp add: ns')
  next
    case False
    with "3.prems" obtain ns'' where a: "appendChild_body ns s = Some ns''"
      and ns': "ns' = Element tg' as' cs' # ns''" by auto
    from "3.prems" have own: "map_of as' (js ''id'') \<noteq> Some i"
      and inner: "getElementById_in cs' i = None" and rest: "getElementById_in ns i = None"
      by (auto split: if_splits option.splits)
    from "3.IH" [OF False a rest "3.prems"(3,4)]
    show ?thesis using own inner by (simp add: ns')
  qed
qed

lemma appendChild_documentBody_found:
  assumes "appendChild_documentBody ns s = Some ns'" and "getElementById_in ns i = None"
    and "s = Element tg as cs" and "map_of as (js ''id'') = Some i"
  shows "getElementById_in ns' i = Some s \<and> remove_element ns' i = ns"
  using assms
proof (induction ns s arbitrary: ns' rule: appendChild_documentBody.induct)
  case (1 s)
  then show ?case by simp
next
  case (2 t ns s)
  then show ?case by auto
next
  case (3 tg' as' cs' ns s)
  from "3.prems" have html: "tg' = js ''html''" by (auto split: if_splits)
  with "3.prems" obtain cs'' where a: "appendChild_body cs' s = Some cs''"
    and ns': "ns' = Element tg' as' cs'' # ns" by auto
  from "3.prems" have own: "map_of as' (js ''id'') \<noteq> Some i"
    and inner: "getElementById_in cs' i = None"
    by (auto split: if_splits option.splits)
  from appendChild_body_found [OF a inner "3.prems"(3,4)]
  show ?case using own by (simp add: ns')
qed

lemma tikzjax_script_id:
  "tikzjax_script payload = Element (js ''script'') [(js ''id'', js ''tikzjax''), (js ''type'', js ''text/javascript'')] payload"
  "map_of [(js ''id'', js ''tikzjax''), (js ''type'', js ''text/javascript'')] (js ''id'') = Some (js ''tikzjax'')"
  by (simp_all add: tikzjax_script_def)

section \<open>The claims\<close>

subsection \<open>C1: what isolateIds does to identifiers and references\<close>

text \<open>
  Claim C1 (as stated): after \<open>isolateIds\<close> no two elements carry the same identifier
  and every reference to an old identifier leads to the fresh identifier of the element
  that carried it, so that no reference is left dangling. In the graphic
  \<open><svg><g id="d"></g><use href="#d"></use></svg>\<close> the pass for \<open>d\<close> replaces the
  \<open>d\<close> of the attribute name \<open>id\<close> as well: the element that carried the identifier
  has no \<open>id\<close> attribute afterwards, no element of the graphic has one, and the
  reference, which now reads \<open>href="#7c9e..."\<close>, names no element.
\<close>

theorem isolateIds_identifier_inside_attribute_name:
  "map element_id (querySelectorAll_id d_graphic) = [js ''d''] \<and>
   isolateIds (reads_back [d_graphic_isolated]) (\<lambda>k. uuid_A) d_graphic =
     Element (js ''svg'') [] d_graphic_isolated \<and>
   querySelectorAll_id (Element (js ''svg'') [] d_graphic_isolated) = [] \<and>
   includes_str (innerHTML (Element (js ''svg'') [] d_graphic_isolated))
     (js ''href='' @ [DQ] @ js ''#'' @ uuid_A @ [DQ]) \<and>
   getElementById_in [Element (js ''svg'') [] d_graphic_isolated] uuid_A = None"
  by code_simp

text \<open>
  Three more graphics. With the identifiers \<open>g1\<close> and \<open>g12\<close> the pass for \<open>g1\<close>
  rewrites the beginning of \<open>g12\<close>: the second element ends with the identifier of
  the first followed by \<open>2\<close>, and the fresh identifier generated for it occurs
  nowhere. A reference inside the graphic to the identifier of the root, which
  \<open>isolateIds\<close> does not replace, is rewritten by the pass for \<open>g1\<close> and names no
  element afterwards. And two elements that share an identifier before the call share
  one after it: the pass for the first replaces both, the pass for the second finds
  nothing.
\<close>

lemma isolateIds_identifier_inside_identifier:
  "isolateIds (reads_back [glyph_graphic_isolated]) (\<lambda>k. if k = 0 then uuid_A else uuid_B)
     glyph_graphic = Element (js ''svg'') [] glyph_graphic_isolated \<and>
   map element_id (querySelectorAll_id (Element (js ''svg'') [] glyph_graphic_isolated)) =
     [uuid_A, uuid_A @ js ''2''] \<and>
   \<not> includes_str (innerHTML (Element (js ''svg'') [] glyph_graphic_isolated)) uuid_B"
  by code_simp

lemma isolateIds_reference_to_root:
  "getElementById_in [rooted_graphic] (js ''g12'') = Some rooted_graphic \<and>
   isolateIds (reads_back [rooted_graphic_isolated]) (\<lambda>k. uuid_A) rooted_graphic =
     Element (js ''svg'') [(js ''id'', js ''g12'')] rooted_graphic_isolated \<and>
   getElementById_in [Element (js ''svg'') [(js ''id'', js ''g12'')] rooted_graphic_isolated]
     (uuid_A @ js ''2'') = None"
  by code_simp

lemma isolateIds_shared_identifier:
  "isolateIds (reads_back [twin_graphic_isolated]) (\<lambda>k. if k = 0 then uuid_A else uuid_B)
     twin_graphic = Element (js ''svg'') [] twin_graphic_isolated \<and>
   map element_id (querySelectorAll_id (Element (js ''svg'') [] twin_graphic_isolated)) =
     [uuid_A, uuid_A]"
  by code_simp

text \<open>The scenario of the specification comes out as the claim says.\<close>

lemma isolateIds_scenario:
  "isolateIds (reads_back [circle_graphic_isolated]) (\<lambda>k. uuid_A) circle_graphic =
     Element (js ''svg'') [] circle_graphic_isolated \<and>
   map element_id (querySelectorAll_id (Element (js ''svg'') [] circle_graphic_isolated)) =
     [uuid_A] \<and>
   getElementById_in [Element (js ''svg'') [] circle_graphic_isolated] uuid_A =
     Some (Element (js ''circle'') [(js ''id'', uuid_A)] [])"
  by code_simp

text \<open>
  Claim C1 (amended): let the graphic have the children \<open>cs\<close>, let \<open>olds\<close> be the
  identifiers of the elements with an \<open>id\<close> attribute inside it, in tree order, and let
  the \<open>k\<close>-th of them be paired with the \<open>k\<close>-th fresh identifier. Suppose that every
  old identifier is identifier-like and the children suit it (it occurs in no tag name and
  in no attribute name, texts and attribute values are plain, no two texts are
  neighbours), that the fresh identifiers are plain attribute values, and that the parser
  reads the serialization of the children after each number of passes back as those
  children. Then \<open>isolateIds\<close> returns the graphic, its own tag name and attributes
  kept, in which every attribute value and every text of the children has gone through
  the passes for all the pairs, one after the other in tree order, each pass replacing all
  occurrences of its old identifier by its fresh one. If moreover no old identifier holds
  \<open>#\<close> or an old identifier that comes before it, and no fresh identifier holds an old
  identifier that comes after it, then the elements with an \<open>id\<close> attribute carry
  exactly the fresh identifiers afterwards, the \<open>k\<close>-th element the \<open>k\<close>-th fresh
  identifier (so that no two share one when the fresh identifiers differ from one
  another), and an attribute value \<open>#old\<close> has become \<open>#\<close> followed by the fresh
  identifier of the element that carried \<open>old\<close>.
\<close>

theorem isolateIds_on_separate_identifiers:
  assumes svgEl: "svgEl = Element tg as cs"
    and olds: "olds = map element_id (querySelectorAll_id svgEl)"
    and pairs: "pairs = zip olds (map uuidv4 [0..<length olds])"
    and ids: "\<forall>old\<in>set olds. identifier_like old \<and> (\<forall>c\<in>set cs. suits old c)"
    and adj: "no_adjacent_text cs"
    and fresh: "\<forall>k\<in>set [0..<length olds]. plain_value (uuidv4 k)"
    and reads: "\<forall>m\<in>set [1..<Suc (length olds)]. \<forall>ctx.
        parse ctx (concat (map serialize (map (map_values (isolated_value (take m pairs))) cs))) =
        map (map_values (isolated_value (take m pairs))) cs"
  shows "isolateIds parse uuidv4 svgEl =
      Element tg as (map (map_values (isolated_value pairs)) cs) \<and>
    ((\<forall>k\<in>set [0..<length olds]. 0x0023 \<notin> set (olds ! k) \<and>
        (\<forall>j\<in>set [0..<k]. \<not> includes_str (olds ! k) (olds ! j)) \<and>
        (\<forall>j\<in>set [Suc k..<length olds]. \<not> includes_str (uuidv4 k) (olds ! j))) \<longrightarrow>
      map element_id (querySelectorAll_id (isolateIds parse uuidv4 svgEl)) =
        map uuidv4 [0..<length olds] \<and>
      (\<forall>k\<in>set [0..<length olds].
         isolated_value pairs (olds ! k) = uuidv4 k \<and>
         isolated_value pairs (js ''#'' @ olds ! k) = js ''#'' @ uuidv4 k))"
proof (intro conjI impI)
  let ?es = "querySelectorAll_id svgEl"
  let ?us = "map uuidv4 [0..<length olds]"
  have len: "length ?es = length olds" by (simp add: olds)
  have us: "?us = map uuidv4 [0..<0 + length ?es]" by (simp add: len)
  have p: "pairs = zip (map element_id ?es) ?us" by (simp add: pairs olds)
  from ids have a1: "\<forall>old\<in>set (map element_id ?es). identifier_like old \<and> (\<forall>c\<in>set cs. suits old c)"
    by (simp add: olds)
  from fresh have a3: "\<forall>u\<in>set ?us. plain_value u" by auto
  from reads have a5: "\<forall>m\<in>set [1..<Suc (length ?es)]. \<forall>ctx.
      parse ctx (concat (map serialize
        (map (map_values (isolated_value (take m (zip (map element_id ?es) ?us)))) cs))) =
      map (map_values (isolated_value (take m (zip (map element_id ?es) ?us)))) cs"
    by (simp only: len p [symmetric])
  have "isolateIds_loop parse uuidv4 0 ?es (Element tg as cs) =
      Element tg as (map (map_values (isolated_value (zip (map element_id ?es) ?us))) cs)"
    by (rule isolateIds_loop_trees [OF a1 adj a3 us a5])
  then show main: "isolateIds parse uuidv4 svgEl =
      Element tg as (map (map_values (isolated_value pairs)) cs)"
    by (simp add: isolateIds_def Let_def p svgEl)
  assume sep: "\<forall>k\<in>set [0..<length olds]. 0x0023 \<notin> set (olds ! k) \<and>
        (\<forall>j\<in>set [0..<k]. \<not> includes_str (olds ! k) (olds ! j)) \<and>
        (\<forall>j\<in>set [Suc k..<length olds]. \<not> includes_str (uuidv4 k) (olds ! j))"
  have ne: "olds ! k \<noteq> []" if "k < length olds" for k
    using ids that by (auto simp: identifier_like_def)
  have own: "isolated_value pairs (olds ! k) = uuidv4 k" if k: "k < length olds" for k
  proof -
    from sep k have "\<forall>j\<in>set [0..<k]. \<not> includes_str (olds ! k) (olds ! j)"
      and "\<forall>j\<in>set [Suc k..<length olds]. \<not> includes_str (?us ! k) (olds ! j)"
      by simp_all
    from isolated_value_own [OF _ k ne [OF k] this] k show ?thesis
      by (simp add: pairs)
  qed
  have hash: "\<forall>p\<in>set pairs. fst p \<noteq> [] \<and> 0x0023 \<notin> set (fst p)"
  proof
    fix p assume "p \<in> set pairs"
    then obtain j where "j < length olds" "fst p = olds ! j"
      by (auto simp: pairs in_set_conv_nth)
    with sep ne show "fst p \<noteq> [] \<and> 0x0023 \<notin> set (fst p)" by simp
  qed
  show "\<forall>k\<in>set [0..<length olds].
      isolated_value pairs (olds ! k) = uuidv4 k \<and>
      isolated_value pairs (js ''#'' @ olds ! k) = js ''#'' @ uuidv4 k"
    using own isolated_value_Cons_delim [OF hash] by (simp add: js_def)
  have "map element_id (querySelectorAll_id (Element tg as (map (map_values (isolated_value pairs)) cs))) =
      map (isolated_value pairs) olds"
    by (simp add: element_ids_map_values olds svgEl)
  also have "\<dots> = map uuidv4 [0..<length olds]"
    using own by (intro nth_equalityI) simp_all
  finally show "map element_id (querySelectorAll_id (isolateIds parse uuidv4 svgEl)) =
      map uuidv4 [0..<length olds]"
    by (simp only: main)
qed

theorem isolateIds_on_separate_identifiers_witness:
  "map element_id (querySelectorAll_id pq_graphic) = [js ''p'', js ''q''] \<and>
   isolateIds (reads_back [pq_graphic_after_p, pq_graphic_isolated])
     (\<lambda>k. if k = 0 then uuid_A else uuid_B) pq_graphic =
     Element (js ''svg'') [] pq_graphic_isolated \<and>
   map element_id (querySelectorAll_id
     (isolateIds (reads_back [pq_graphic_after_p, pq_graphic_isolated])
        (\<lambda>k. if k = 0 then uuid_A else uuid_B) pq_graphic)) = [uuid_A, uuid_B]"
proof -
  let ?uuidv4 = "\<lambda>k :: nat. if k = 0 then uuid_A else uuid_B"
  let ?parse = "reads_back [pq_graphic_after_p, pq_graphic_isolated]"
  let ?olds = "map element_id (querySelectorAll_id pq_graphic)"
  let ?pairs = "zip ?olds (map ?uuidv4 [0..<length ?olds])"
  let ?cs = "childNodes pq_graphic"
  have olds: "?olds = [js ''p'', js ''q'']" by code_simp
  have root: "pq_graphic = Element (js ''svg'') [] ?cs" by code_simp
  have ids: "\<forall>old\<in>set ?olds. identifier_like old \<and> (\<forall>c\<in>set ?cs. suits old c)"
    by code_simp
  have adj: "no_adjacent_text ?cs" by code_simp
  have fresh: "\<forall>k\<in>set [0..<length ?olds]. plain_value (?uuidv4 k)" by code_simp
  have base: "\<forall>m\<in>set [1..<Suc (length ?olds)].
      ?parse (Text []) (concat (map serialize (map (map_values (isolated_value (take m ?pairs))) ?cs))) =
      map (map_values (isolated_value (take m ?pairs))) ?cs"
    by code_simp
  have reads: "\<forall>m\<in>set [1..<Suc (length ?olds)]. \<forall>ctx.
      ?parse ctx (concat (map serialize (map (map_values (isolated_value (take m ?pairs))) ?cs))) =
      map (map_values (isolated_value (take m ?pairs))) ?cs"
  proof (intro ballI allI)
    fix m ctx
    assume m: "m \<in> set [1..<Suc (length ?olds)]"
    from bspec [OF base m]
    show "?parse ctx (concat (map serialize (map (map_values (isolated_value (take m ?pairs))) ?cs))) =
      map (map_values (isolated_value (take m ?pairs))) ?cs"
      by (simp only: reads_back_def)
  qed
  have sep: "\<forall>k\<in>set [0..<length ?olds]. 0x0023 \<notin> set (?olds ! k) \<and>
      (\<forall>j\<in>set [0..<k]. \<not> includes_str (?olds ! k) (?olds ! j)) \<and>
      (\<forall>j\<in>set [Suc k..<length ?olds]. \<not> includes_str (?uuidv4 k) (?olds ! j))"
    by code_simp
  have tree: "Element (js ''svg'') [] (map (map_values (isolated_value ?pairs)) ?cs) =
      Element (js ''svg'') [] pq_graphic_isolated"
    by code_simp
  have new: "map ?uuidv4 [0..<length ?olds] = [uuid_A, uuid_B]" by code_simp
  from isolateIds_on_separate_identifiers [OF root refl refl ids adj fresh reads] sep
  have "isolateIds ?parse ?uuidv4 pq_graphic =
      Element (js ''svg'') [] (map (map_values (isolated_value ?pairs)) ?cs)"
    and "map element_id (querySelectorAll_id (isolateIds ?parse ?uuidv4 pq_graphic)) =
      map ?uuidv4 [0..<length ?olds]"
    by blast+
  with olds tree new show ?thesis by (simp only: simp_thms)
qed

subsection \<open>C2: an earlier fresh identifier under a later pass\<close>

text \<open>
  Claim C2 (as stated): the pass for a later element never matches inside an identifier
  that an earlier pass put in. In the graphic with the identifiers \<open>a\<close> and \<open>b\<close> the fresh
  identifier of \<open>a\<close> holds the letter \<open>b\<close> three times, and the pass for \<open>b\<close> replaces
  each: the first element ends with another identifier than the one generated for it,
  which occurs nowhere any more.
\<close>

theorem isolateIds_rewrites_fresh_identifier:
  "isolateIds (reads_back [ab_graphic_after_a, ab_graphic_after_b])
     (\<lambda>k. if k = 0 then uuid_C else uuid_D) ab_graphic =
     Element (js ''svg'') [] ab_graphic_after_b \<and>
   map element_id (querySelectorAll_id (Element (js ''svg'') [] ab_graphic_after_b)) =
     [uuid_C_rewritten, uuid_D] \<and>
   uuid_C_rewritten \<noteq> uuid_C \<and>
   \<not> includes_str (innerHTML (Element (js ''svg'') [] ab_graphic_after_b)) uuid_C"
  by code_simp

text \<open>
  Claim C2 (amended): in a run of \<open>isolateIds\<close> over the elements with an identifier,
  taken in tree order, let \<open>before\<close> be the graphic after the passes for the first
  \<open>k\<close> elements, and let the fresh identifier of an earlier pass \<open>j < k\<close> stand in its
  markup between \<open>pre\<close> and \<open>post\<close>. If the identifier of the \<open>k\<close>-th element is not
  empty and no occurrence of it in that markup overlaps the fresh identifier there, then
  the pass for the \<open>k\<close>-th element leaves the fresh identifier as it is and rewrites
  \<open>pre\<close> and \<open>post\<close> each on its own; the graphic after \<open>k + 1\<close> passes is the one
  with that markup parsed, and the run goes on from it with the remaining elements.
\<close>

theorem isolateIds_later_pass_keeps_fresh_identifier:
  assumes elements: "elements = querySelectorAll_id svgEl"
    and k: "k < length elements" and j: "j < k"
    and before: "before = isolateIds_loop parse uuidv4 0 (take k elements) svgEl"
    and oldId: "oldId = element_id (elements ! k)" "oldId \<noteq> []"
    and stands: "innerHTML before = pre @ uuidv4 j @ post"
    and free: "\<not> overlaps oldId pre (uuidv4 j) post"
    and after: "after = set_innerHTML parse before
        (replaceAll pre oldId (uuidv4 k) @ uuidv4 j @ replaceAll post oldId (uuidv4 k))"
  shows "rewritten_markup before oldId (uuidv4 k) =
      replaceAll pre oldId (uuidv4 k) @ uuidv4 j @ replaceAll post oldId (uuidv4 k) \<and>
    isolateIds_loop parse uuidv4 0 (take (Suc k) elements) svgEl = after \<and>
    isolateIds parse uuidv4 svgEl =
      isolateIds_loop parse uuidv4 (Suc k) (drop (Suc k) elements) after"
proof (intro conjI)
  show m: "rewritten_markup before oldId (uuidv4 k) =
      replaceAll pre oldId (uuidv4 k) @ uuidv4 j @ replaceAll post oldId (uuidv4 k)"
    unfolding rewritten_markup_def stands
    by (rule replaceAll_keeps_untouched [OF oldId(2) free])
  have "take (Suc k) elements = take k elements @ [elements ! k]"
    using k by (rule take_Suc_conv_app_nth)
  then have "isolateIds_loop parse uuidv4 0 (take (Suc k) elements) svgEl =
      set_innerHTML parse before (rewritten_markup before oldId (uuidv4 (0 + length (take k elements))))"
    by (simp only: isolateIds_loop_snoc before oldId(1))
  also have "0 + length (take k elements) = k" using k by simp
  finally show s: "isolateIds_loop parse uuidv4 0 (take (Suc k) elements) svgEl = after"
    by (simp only: m after)
  have "isolateIds parse uuidv4 svgEl =
      isolateIds_loop parse uuidv4 0 (take (Suc k) elements @ drop (Suc k) elements) svgEl"
    by (simp add: isolateIds_def Let_def elements)
  also have "\<dots> = isolateIds_loop parse uuidv4 (0 + length (take (Suc k) elements))
      (drop (Suc k) elements) (isolateIds_loop parse uuidv4 0 (take (Suc k) elements) svgEl)"
    by (rule isolateIds_loop_append)
  also have "0 + length (take (Suc k) elements) = Suc k" using k by simp
  finally show "isolateIds parse uuidv4 svgEl =
      isolateIds_loop parse uuidv4 (Suc k) (drop (Suc k) elements) after"
    by (simp only: s)
qed

theorem isolateIds_later_pass_keeps_fresh_identifier_witness:
  "map element_id (querySelectorAll_id gd_graphic) = [js ''g1'', js ''d9''] \<and>
   set (js ''d9'') \<subseteq> set uuid_A \<and>
   isolateIds (reads_back [gd_graphic_after_g1, gd_graphic_isolated])
     (\<lambda>k. if k = 0 then uuid_A else uuid_B) gd_graphic =
     Element (js ''svg'') [] gd_graphic_isolated \<and>
   innerHTML (Element (js ''svg'') [] gd_graphic_isolated) =
     js ''<path id='' @ [DQ] @ uuid_A @ [DQ] @ js ''></path><path id='' @ [DQ] @ uuid_B @ [DQ] @
     js ''></path><use href='' @ [DQ] @ js ''#'' @ uuid_B @ [DQ] @ js ''></use>''"
proof -
  let ?uuidv4 = "\<lambda>k :: nat. if k = 0 then uuid_A else uuid_B"
  let ?parse = "reads_back [gd_graphic_after_g1, gd_graphic_isolated]"
  let ?elements = "querySelectorAll_id gd_graphic"
  let ?before = "isolateIds_loop ?parse ?uuidv4 0 (take 1 ?elements) gd_graphic"
  let ?pre = "js ''<path id='' @ [DQ]"
  let ?post = "[DQ] @ js ''></path><path id='' @ [DQ] @ js ''d9'' @ [DQ] @
     js ''></path><use href='' @ [DQ] @ js ''#d9'' @ [DQ] @ js ''></use>''"
  let ?after = "set_innerHTML ?parse ?before
     (replaceAll ?pre (js ''d9'') (?uuidv4 1) @ ?uuidv4 0 @ replaceAll ?post (js ''d9'') (?uuidv4 1))"
  have ids: "map element_id ?elements = [js ''g1'', js ''d9'']" by code_simp
  have shared: "set (js ''d9'') \<subseteq> set uuid_A" by code_simp
  have k: "1 < length ?elements" by code_simp
  have j: "(0 :: nat) < 1" by simp
  have oldId: "js ''d9'' = element_id (?elements ! 1)" "js ''d9'' \<noteq> []" by code_simp+
  have stands: "innerHTML ?before = ?pre @ ?uuidv4 0 @ ?post" by code_simp
  have free: "\<not> overlaps (js ''d9'') ?pre (?uuidv4 0) ?post" by code_simp
  have rest: "isolateIds_loop ?parse ?uuidv4 (Suc 1) (drop (Suc 1) ?elements) ?after =
      Element (js ''svg'') [] gd_graphic_isolated"
    by code_simp
  have markup: "innerHTML (Element (js ''svg'') [] gd_graphic_isolated) =
     js ''<path id='' @ [DQ] @ uuid_A @ [DQ] @ js ''></path><path id='' @ [DQ] @ uuid_B @ [DQ] @
     js ''></path><use href='' @ [DQ] @ js ''#'' @ uuid_B @ [DQ] @ js ''></use>''"
    by code_simp
  from isolateIds_later_pass_keeps_fresh_identifier [OF refl k j refl oldId stands free refl]
  have "isolateIds ?parse ?uuidv4 gd_graphic =
      isolateIds_loop ?parse ?uuidv4 (Suc 1) (drop (Suc 1) ?elements) ?after"
    by (rule conjunct2 [THEN conjunct2])
  with rest ids shared markup show ?thesis by (simp only: simp_thms)
qed

subsection \<open>C3: the style comments of a tikz block\<close>

text \<open>
  Claim C3: every line of the style-comment prefix, a line whose first character after
  leading white space is \<open>%\<close>, loses its \<open>%\<close>. The code counts an indented line into
  the prefix and then looks for the \<open>%\<close> at the very start of the line only: the
  declaration of the block \<open>"  %color: red\n\begin{tikzpicture}"\<close> keeps its \<open>%\<close>.
\<close>

theorem registerTikzCodeBlock_indented_comment:
  "cssLines (registerTikzCodeBlock
      (js ''  %color: red'' @ [LF] @ [BACKSLASH] @ js ''begin{tikzpicture}'')) =
     [js ''%color: red''] \<and>
   cssString (registerTikzCodeBlock
      (js ''  %color: red'' @ [LF] @ [BACKSLASH] @ js ''begin{tikzpicture}'')) =
     js ''%color: red''"
  by code_simp

text \<open>The scenario of the claim, whose lines are not indented, is as the claim says.\<close>

lemma registerTikzCodeBlock_scenario:
  "registerTikzCodeBlock
     (js ''%color: red'' @ [LF] @ js ''%padding: 4px'' @ [LF] @
      [BACKSLASH] @ js ''begin{tikzpicture}'' @ [LF] @ [BACKSLASH] @ js ''end{tikzpicture}'') =
   \<lparr> cssLines = [js ''color: red'', js ''padding: 4px''],
     cssString = js ''color: red; padding: 4px'',
     cleanedSource =
       [BACKSLASH] @ js ''begin{tikzpicture}'' @ [LF] @ [BACKSLASH] @ js ''end{tikzpicture}'',
     scriptText =
       [BACKSLASH] @ js ''begin{tikzpicture}'' @ [LF] @ [BACKSLASH] @ js ''end{tikzpicture}'' \<rparr>"
  by code_simp

subsection \<open>C4: what colorSVGinDarkMode rewrites\<close>

text \<open>
  Claim C4 (as stated): for every input \<open>colorSVGinDarkMode\<close> rewrites exactly the
  quoted tokens \<open>"#000"\<close> and \<open>"black"\<close> to \<open>"currentColor"\<close> and \<open>"#fff"\<close> and
  \<open>"white"\<close> to \<open>"var(--background-primary)"\<close>. In \<open>"black"#000"\<close> the token
  \<open>"#000"\<close> begins with the quote that closes \<open>"black"\<close>: the replacement goes from
  left to right without overlap, \<open>"black"\<close> is replaced, and \<open>"#000"\<close> is still
  there in the result.
\<close>

theorem colorSVGinDarkMode_keeps_token_behind_token:
  "includes_str (quoted ''black'' @ js ''#000'' @ [DQ]) (quoted ''#000'') \<and>
   colorSVGinDarkMode (quoted ''black'' @ js ''#000'' @ [DQ]) =
     quoted ''currentColor'' @ js ''#000'' @ [DQ] \<and>
   includes_str (colorSVGinDarkMode (quoted ''black'' @ js ''#000'' @ [DQ])) (quoted ''#000'')"
  by code_simp

text \<open>
  Claim C4 (amended): for every string, each of the two passes of
  \<open>colorSVGinDarkMode\<close> only copies code units or puts its replacement in the place of
  one of its two tokens (\<open>"currentColor"\<close> for \<open>"#000"\<close> and \<open>"black"\<close>, then
  \<open>"var(--background-primary)"\<close> for \<open>"#fff"\<close> and \<open>"white"\<close>); a string in which
  none of the four tokens occurs is returned unchanged; and a token is replaced, with the
  text before it and the text after it recoloured on their own, when the text before it
  does not end inside a token and the text after it does not begin inside one (so that
  the quotes of the token belong to no other token).
\<close>

theorem colorSVGinDarkMode_rewrites_quoted_tokens:
  "(\<exists>mid. rewritten {quoted ''#000'', quoted ''black''} (quoted ''currentColor'') s mid \<and>
      rewritten {quoted ''#fff'', quoted ''white''} (quoted ''var(--background-primary)'')
        mid (colorSVGinDarkMode s)) \<and>
   ((\<forall>t\<in>set color_tokens. \<not> includes_str s t) \<longrightarrow> colorSVGinDarkMode s = s) \<and>
   (\<not> ends_inside_token x \<and> \<not> begins_inside_token y \<longrightarrow>
      colorSVGinDarkMode (x @ quoted ''#000'' @ y) =
        colorSVGinDarkMode x @ quoted ''currentColor'' @ colorSVGinDarkMode y \<and>
      colorSVGinDarkMode (x @ quoted ''black'' @ y) =
        colorSVGinDarkMode x @ quoted ''currentColor'' @ colorSVGinDarkMode y \<and>
      colorSVGinDarkMode (x @ quoted ''#fff'' @ y) =
        colorSVGinDarkMode x @ quoted ''var(--background-primary)'' @ colorSVGinDarkMode y \<and>
      colorSVGinDarkMode (x @ quoted ''white'' @ y) =
        colorSVGinDarkMode x @ quoted ''var(--background-primary)'' @ colorSVGinDarkMode y)"
proof (intro conjI impI)
  show "\<exists>mid. rewritten {quoted ''#000'', quoted ''black''} (quoted ''currentColor'') s mid \<and>
      rewritten {quoted ''#fff'', quoted ''white''} (quoted ''var(--background-primary)'')
        mid (colorSVGinDarkMode s)"
    using color_stages [of s] by blast
next
  assume "\<forall>t\<in>set color_tokens. \<not> includes_str s t"
  then show "colorSVGinDarkMode s = s" by (rule color_absent)
next
  assume a: "\<not> ends_inside_token x \<and> \<not> begins_inside_token y"
  then have x: "\<not> ends_inside_token x" and y: "\<not> begins_inside_token y"
    by simp_all
  show "colorSVGinDarkMode (x @ quoted ''#000'' @ y) =
      colorSVGinDarkMode x @ quoted ''currentColor'' @ colorSVGinDarkMode y"
    by (rule color_token_between(1) [OF x y])
  show "colorSVGinDarkMode (x @ quoted ''black'' @ y) =
      colorSVGinDarkMode x @ quoted ''currentColor'' @ colorSVGinDarkMode y"
    by (rule color_token_between(2) [OF x y])
  show "colorSVGinDarkMode (x @ quoted ''#fff'' @ y) =
      colorSVGinDarkMode x @ quoted ''var(--background-primary)'' @ colorSVGinDarkMode y"
    by (rule color_token_between(3) [OF x y])
  show "colorSVGinDarkMode (x @ quoted ''white'' @ y) =
      colorSVGinDarkMode x @ quoted ''var(--background-primary)'' @ colorSVGinDarkMode y"
    by (rule color_token_between(4) [OF x y])
qed

text \<open>
  Unquoted, capitalized and longer colours stay; \<open>fill="black"\<close> and \<open>fill="#fff"\<close> are
  rewritten, also behind another quoted attribute.
\<close>

theorem colorSVGinDarkMode_rewrites_quoted_tokens_witness:
  "colorSVGinDarkMode (js ''fill=black stroke='' @ quoted ''#000000'' @ js '' color='' @
       quoted ''Black'' @ js '' stop-color='' @ quoted ''WHITE'') =
     js ''fill=black stroke='' @ quoted ''#000000'' @ js '' color='' @
       quoted ''Black'' @ js '' stop-color='' @ quoted ''WHITE'' \<and>
   colorSVGinDarkMode (js ''<path d='' @ quoted ''M0 0'' @ js '' fill='' @ quoted ''black'' @
       js ''></path>'') =
     js ''<path d='' @ quoted ''M0 0'' @ js '' fill='' @ quoted ''currentColor'' @
       js ''></path>'' \<and>
   colorSVGinDarkMode (js ''<path d='' @ quoted ''M0 0'' @ js '' fill='' @ quoted ''#fff'' @
       js ''></path>'') =
     js ''<path d='' @ quoted ''M0 0'' @ js '' fill='' @ quoted ''var(--background-primary)'' @
       js ''></path>''"
proof -
  have none: "\<forall>t\<in>set color_tokens. \<not> includes_str
      (js ''fill=black stroke='' @ quoted ''#000000'' @ js '' color='' @
       quoted ''Black'' @ js '' stop-color='' @ quoted ''WHITE'') t"
    by code_simp
  have ctx: "\<not> ends_inside_token (js ''<path d='' @ quoted ''M0 0'' @ js '' fill='') \<and>
      \<not> begins_inside_token (js ''></path>'')"
    by code_simp
  have before: "colorSVGinDarkMode (js ''<path d='' @ quoted ''M0 0'' @ js '' fill='') =
      js ''<path d='' @ quoted ''M0 0'' @ js '' fill=''"
    by code_simp
  have rest: "colorSVGinDarkMode (js ''></path>'') = js ''></path>''"
    by code_simp
  from colorSVGinDarkMode_rewrites_quoted_tokens
    [of "js ''fill=black stroke='' @ quoted ''#000000'' @ js '' color='' @
       quoted ''Black'' @ js '' stop-color='' @ quoted ''WHITE''"
      "js ''<path d='' @ quoted ''M0 0'' @ js '' fill=''" "js ''></path>''"]
    none ctx before rest
  show ?thesis by simp
qed

subsection \<open>C5: tidying twice\<close>

text \<open>
  Claim C5 (as stated): \<open>tidyTikzSource\<close> is idempotent on every string. It is not:
  removing \<open>&nbsp;\<close> from \<open>&nb&nbsp;sp;\<close> in one pass leaves \<open>&nbsp;\<close>, which a second
  call removes.
\<close>

theorem tidyTikzSource_not_idempotent:
  "tidyTikzSource (js ''&nb&nbsp;sp;'') = js ''&nbsp;'' \<and>
   tidyTikzSource (tidyTikzSource (js ''&nb&nbsp;sp;'')) = [] \<and>
   tidyTikzSource (tidyTikzSource (js ''&nb&nbsp;sp;'')) \<noteq> tidyTikzSource (js ''&nb&nbsp;sp;'')"
  by code_simp

text \<open>
  Claim C5 (amended): tidying a tidied string returns it unchanged exactly when the
  tidied string holds no \<open>&nbsp;\<close> sequence.
\<close>

theorem tidyTikzSource_idempotent_iff:
  "tidyTikzSource (tidyTikzSource s) = tidyTikzSource s \<longleftrightarrow>
     \<not> includes_str (tidyTikzSource s) (js ''&nbsp;'')"
proof
  assume eq: "tidyTikzSource (tidyTikzSource s) = tidyTikzSource s"
  show "\<not> includes_str (tidyTikzSource s) (js ''&nbsp;'')"
  proof
    assume "includes_str (tidyTikzSource s) (js ''&nbsp;'')"
    then have "length (replaceAll (tidyTikzSource s) (js ''&nbsp;'') [])
        < length (tidyTikzSource s)"
      unfolding replaceAll_def by (intro length_replaceAlts_less nbsp_not_empty)
    with length_tidy_le [of "tidyTikzSource s"] eq show False by simp
  qed
next
  assume "\<not> includes_str (tidyTikzSource s) (js ''&nbsp;'')"
  then show "tidyTikzSource (tidyTikzSource s) = tidyTikzSource s" by (rule tidy_idem_if)
qed

text \<open>The scenario of the specification for the cleaning.\<close>

lemma tidyTikzSource_scenario:
  "tidyTikzSource (js ''  '' @ [BACKSLASH] @ js ''draw (0,0) circle (1);  '' @ [LF, LF]) =
     [BACKSLASH] @ js ''draw (0,0) circle (1);''"
  by code_simp

subsection \<open>C6: the stages of postProcessSvg\<close>

text \<open>
  Claim C6: \<open>postProcessSvg\<close> isolates the identifiers of the event's target, recolours
  the outer markup of the result if and only if \<open>invertColorsInDarkMode\<close> is set,
  minimizes what it has then, and puts the parsed result in the place of the target, in
  this order and in one update of the parent. When the minimizer raises, the fault is
  not caught: the target stays in its place, as \<open>isolateIds\<close> left it.
\<close>

theorem postProcessSvg_stages:
  "(invertColorsInDarkMode st \<and>
      optimize (colorSVGinDarkMode (outerHTML (isolateIds parse uuidv4 (target e)))) = Some svg \<longrightarrow>
      postProcessSvg st parse uuidv4 optimize e =
        (None, Element (parentTagName e) (parentAttributes e)
           (previousSiblings e @
            parse (parent_of e (isolateIds parse uuidv4 (target e))) svg @
            nextSiblings e))) \<and>
   (\<not> invertColorsInDarkMode st \<and>
      optimize (outerHTML (isolateIds parse uuidv4 (target e))) = Some svg \<longrightarrow>
      postProcessSvg st parse uuidv4 optimize e =
        (None, Element (parentTagName e) (parentAttributes e)
           (previousSiblings e @
            parse (parent_of e (isolateIds parse uuidv4 (target e))) svg @
            nextSiblings e))) \<and>
   (optimize (if invertColorsInDarkMode st
        then colorSVGinDarkMode (outerHTML (isolateIds parse uuidv4 (target e)))
        else outerHTML (isolateIds parse uuidv4 (target e))) = None \<longrightarrow>
      postProcessSvg st parse uuidv4 optimize e =
        (Some MinimizationFault, parent_of e (isolateIds parse uuidv4 (target e))))"
  by (simp add: postProcessSvg_def Let_def set_outerHTML_def)

theorem postProcessSvg_stages_witness:
  "postProcessSvg \<lparr> invertColorsInDarkMode = True \<rparr>
     (reads_back [black_graphic_isolated, [black_graphic_recolored]]) (\<lambda>k. uuid_A) Some
     black_event =
     (None, Element (js ''div'') [] [black_graphic_recolored]) \<and>
   postProcessSvg \<lparr> invertColorsInDarkMode = False \<rparr>
     (reads_back [black_graphic_isolated, [Element (js ''svg'') [] black_graphic_isolated]])
     (\<lambda>k. uuid_A) Some black_event =
     (None, Element (js ''div'') [] [Element (js ''svg'') [] black_graphic_isolated])"
proof -
  let ?p = "reads_back [black_graphic_isolated, [black_graphic_recolored]]"
  let ?q = "reads_back [black_graphic_isolated, [Element (js ''svg'') [] black_graphic_isolated]]"
  have on: "invertColorsInDarkMode \<lparr> invertColorsInDarkMode = True \<rparr> \<and>
      Some (colorSVGinDarkMode (outerHTML (isolateIds ?p (\<lambda>k. uuid_A) (target black_event)))) =
      Some (outerHTML black_graphic_recolored)"
    by code_simp
  have on': "Element (parentTagName black_event) (parentAttributes black_event)
      (previousSiblings black_event @
       ?p (parent_of black_event (isolateIds ?p (\<lambda>k. uuid_A) (target black_event)))
          (outerHTML black_graphic_recolored) @
       nextSiblings black_event) = Element (js ''div'') [] [black_graphic_recolored]"
    by code_simp
  have off: "\<not> invertColorsInDarkMode \<lparr> invertColorsInDarkMode = False \<rparr> \<and>
      Some (outerHTML (isolateIds ?q (\<lambda>k. uuid_A) (target black_event))) =
      Some (outerHTML (Element (js ''svg'') [] black_graphic_isolated))"
    by code_simp
  have off': "Element (parentTagName black_event) (parentAttributes black_event)
      (previousSiblings black_event @
       ?q (parent_of black_event (isolateIds ?q (\<lambda>k. uuid_A) (target black_event)))
          (outerHTML (Element (js ''svg'') [] black_graphic_isolated)) @
       nextSiblings black_event) =
      Element (js ''div'') [] [Element (js ''svg'') [] black_graphic_isolated]"
    by code_simp
  from postProcessSvg_stages [of "\<lparr> invertColorsInDarkMode = True \<rparr>" Some ?p "\<lambda>k. uuid_A"
      black_event "outerHTML black_graphic_recolored"] on on'
  have 1: "postProcessSvg \<lparr> invertColorsInDarkMode = True \<rparr> ?p (\<lambda>k. uuid_A) Some black_event =
      (None, Element (js ''div'') [] [black_graphic_recolored])"
    by simp
  from postProcessSvg_stages [of "\<lparr> invertColorsInDarkMode = False \<rparr>" Some ?q "\<lambda>k. uuid_A"
      black_event "outerHTML (Element (js ''svg'') [] black_graphic_isolated)"] off off'
  have 2: "postProcessSvg \<lparr> invertColorsInDarkMode = False \<rparr> ?q (\<lambda>k. uuid_A) Some black_event =
      (None, Element (js ''div'') [] [Element (js ''svg'') [] black_graphic_isolated])"
    by simp
  from 1 2 show ?thesis by simp
qed

subsection \<open>C7: injecting and removing the engine\<close>

text \<open>
  Claim C7 (as stated): for every document, \<open>loadTikZJax\<close> followed by \<open>unloadTikZJax\<close>
  leaves no element with the identifier \<open>tikzjax\<close>. In a document that holds such an
  element already, \<open>getElementById\<close> finds that one, the first in tree order:
  \<open>unloadTikZJax\<close> removes it and the injected script stays in the body.
\<close>

theorem loadTikZJax_unloadTikZJax_occupied:
  "(case loadTikZJax [] occupied_document of
      Inl f \<Rightarrow> Inl f
    | Inr d \<Rightarrow> unloadTikZJax d) = Inr occupied_document_after \<and>
   getElementById occupied_document_after (js ''tikzjax'') = Some (tikzjax_script []) \<and>
   occupied_document_after \<noteq> occupied_document"
  by code_simp

text \<open>
  Claim C7 (amended): for every document in which no element carries the identifier
  \<open>tikzjax\<close> and on which \<open>loadTikZJax\<close> returns (the document has a body),
  \<open>unloadTikZJax\<close> called next returns too and leaves the nodes of the document as they
  were before the injection, with no element of the identifier \<open>tikzjax\<close>, and no
  registration of \<open>postProcessSvg\<close> for \<open>tikzjax-load-finished\<close>; it leaves the pre-injection
  document itself when \<open>postProcessSvg\<close> was not registered before.
\<close>

theorem loadTikZJax_then_unloadTikZJax:
  assumes "getElementById doc (js ''tikzjax'') = None"
    and "loadTikZJax payload doc = Inr doc'"
  shows "\<exists>doc''. unloadTikZJax doc' = Inr doc'' \<and>
      documentChildren doc'' = documentChildren doc \<and>
      getElementById doc'' (js ''tikzjax'') = None \<and>
      (js ''tikzjax-load-finished'', PostProcessSvg) \<notin> listeners doc'' \<and>
      listeners doc'' = listeners doc - {(js ''tikzjax-load-finished'', PostProcessSvg)} \<and>
      ((js ''tikzjax-load-finished'', PostProcessSvg) \<notin> listeners doc \<longrightarrow> doc'' = doc)"
proof -
  from assms(2) obtain ns
    where a: "appendChild_documentBody (documentChildren doc) (tikzjax_script payload) = Some ns"
      and doc': "doc' = doc\<lparr> documentChildren := ns,
        listeners := insert (js ''tikzjax-load-finished'', PostProcessSvg) (listeners doc) \<rparr>"
    by (auto simp: loadTikZJax_def Let_def split: option.splits)
  from assms(1) have none: "getElementById_in (documentChildren doc) (js ''tikzjax'') = None"
    by (simp add: getElementById_def)
  from appendChild_documentBody_found [OF a none tikzjax_script_id]
  have found: "getElementById_in ns (js ''tikzjax'') = Some (tikzjax_script payload)"
    and removed: "remove_element ns (js ''tikzjax'') = documentChildren doc"
    by simp_all
  let ?d = "doc\<lparr> listeners := listeners doc - {(js ''tikzjax-load-finished'', PostProcessSvg)} \<rparr>"
  from found removed have "unloadTikZJax doc' = Inr ?d"
    by (simp add: unloadTikZJax_def getElementById_def doc')
  moreover have "getElementById ?d (js ''tikzjax'') = None"
    using assms(1) by (simp add: getElementById_def)
  moreover have "(js ''tikzjax-load-finished'', PostProcessSvg) \<notin> listeners doc \<longrightarrow> ?d = doc"
    by simp
  ultimately show ?thesis by simp
qed

theorem loadTikZJax_then_unloadTikZJax_witness:
  "getElementById plain_document (js ''tikzjax'') = None \<and>
   loadTikZJax [] plain_document = Inr plain_document_injected \<and>
   unloadTikZJax plain_document_injected = Inr plain_document"
proof -
  have a: "getElementById plain_document (js ''tikzjax'') = None" by code_simp
  have b: "loadTikZJax [] plain_document = Inr plain_document_injected" by code_simp
  have c: "(js ''tikzjax-load-finished'', PostProcessSvg) \<notin> listeners plain_document"
    by (simp add: plain_document_def)
  from loadTikZJax_then_unloadTikZJax [OF a b] c
  have "unloadTikZJax plain_document_injected = Inr plain_document" by auto
  with a b show ?thesis by simp
qed

subsection \<open>C8: removing an engine that was not injected\<close>

text \<open>
  Claim C8: in a document without an element of the identifier \<open>tikzjax\<close>,
  \<open>unloadTikZJax\<close> raises: \<open>getElementById\<close> returns \<open>null\<close> and \<open>s.remove()\<close> is a
  \<open>TypeError\<close>.
\<close>

theorem unloadTikZJax_without_script:
  "getElementById doc (js ''tikzjax'') = None \<Longrightarrow> unloadTikZJax doc = Inl TypeError"
  by (simp add: unloadTikZJax_def)

theorem unloadTikZJax_without_script_witness:
  "getElementById plain_document (js ''tikzjax'') = None \<and>
   unloadTikZJax plain_document = Inl TypeError"
proof -
  have a: "getElementById plain_document (js ''tikzjax'') = None" by code_simp
  from a unloadTikZJax_without_script [OF a] show ?thesis by simp
qed

subsection \<open>C9: recolouring twice\<close>

text \<open>
  Claim C9 (as stated): \<open>colorSVGinDarkMode\<close> is idempotent on every string. It is not:
  in \<open>"black"#000"\<close> the first call replaces \<open>"black"\<close> and goes on behind its closing
  quote, so that \<open>#000"\<close> stays; the quote that closes \<open>"currentColor"\<close> then makes it
  the token \<open>"#000"\<close>, which the second call replaces.
\<close>

theorem colorSVGinDarkMode_not_idempotent:
  "colorSVGinDarkMode (quoted ''black'' @ js ''#000'' @ [DQ]) =
     quoted ''currentColor'' @ js ''#000'' @ [DQ] \<and>
   colorSVGinDarkMode (colorSVGinDarkMode (quoted ''black'' @ js ''#000'' @ [DQ])) =
     [DQ] @ js ''currentColor'' @ quoted ''currentColor'' \<and>
   colorSVGinDarkMode (colorSVGinDarkMode (quoted ''black'' @ js ''#000'' @ [DQ])) \<noteq>
     colorSVGinDarkMode (quoted ''black'' @ js ''#000'' @ [DQ])"
  by code_simp

text \<open>
  Claim C9 (amended): recolouring a recoloured string returns it unchanged exactly when
  none of the four quoted tokens occurs in the recoloured string.
\<close>

theorem colorSVGinDarkMode_idempotent_iff:
  "colorSVGinDarkMode (colorSVGinDarkMode s) = colorSVGinDarkMode s \<longleftrightarrow>
     \<not> (\<exists>t\<in>set color_tokens. includes_str (colorSVGinDarkMode s) t)"
proof
  assume eq: "colorSVGinDarkMode (colorSVGinDarkMode s) = colorSVGinDarkMode s"
  show "\<not> (\<exists>t\<in>set color_tokens. includes_str (colorSVGinDarkMode s) t)"
  proof
    assume "\<exists>t\<in>set color_tokens. includes_str (colorSVGinDarkMode s) t"
    then have "length (colorSVGinDarkMode s) < length (colorSVGinDarkMode (colorSVGinDarkMode s))"
      by (rule color_length)
    with eq show False by simp
  qed
next
  assume "\<not> (\<exists>t\<in>set color_tokens. includes_str (colorSVGinDarkMode s) t)"
  then have "\<forall>t\<in>set color_tokens. \<not> includes_str (colorSVGinDarkMode s) t" by blast
  then show "colorSVGinDarkMode (colorSVGinDarkMode s) = colorSVGinDarkMode s"
    by (rule color_absent)
qed

subsection \<open>C10: the root of the graphic\<close>

text \<open>
  Claim C10: \<open>isolateIds\<close> leaves the element it is given as it is, but for its
  children: the tag name and every attribute of the root, its \<open>id\<close> among them, are
  after the call what they were before, and the root is not among the elements whose
  identifiers are replaced.
\<close>

theorem isolateIds_keeps_root:
  "tagName (isolateIds parse uuidv4 svgEl) = tagName svgEl \<and>
   attributes (isolateIds parse uuidv4 svgEl) = attributes svgEl \<and>
   element_id (isolateIds parse uuidv4 svgEl) = element_id svgEl \<and>
   svgEl \<notin> set (querySelectorAll_id svgEl)"
  by (simp add: isolateIds_def Let_def element_id_def isolateIds_loop_keeps not_own_descendant)

end
